theory Spec2Isabelle
  imports Main "HOL-Library.Word" "HOL-Library.Sublist" "HOL-Library.List_Lexorder" "HOL-Library.AList"
begin

section \<open>JavaScript strings\<close>

text \<open>
  A JavaScript string is a sequence of UTF-16 code units. String literals of the source
  are written \<open>js ''...''\<close>. All literals of the program are ASCII, where a code unit
  is the character's byte.
\<close>

type_synonym jschar = "16 word"
type_synonym jsstring = "jschar list"

definition js :: "string \<Rightarrow> jsstring" where
  "js s = map of_char s"

text \<open>ECMAScript \<open>LineTerminator\<close>: LF, CR, LS, PS. The regular expression atom \<open>.\<close>
  (no \<open>s\<close> flag) matches every code unit but these.\<close>

definition isLineTerminator :: "jschar \<Rightarrow> bool" where
  "isLineTerminator c = (c = 0x000A \<or> c = 0x000D \<or> c = 0x2028 \<or> c = 0x2029)"

text \<open>ECMAScript \<open>WhiteSpace\<close>: TAB, VT, FF, SP, NBSP, ZWNBSP and the category Zs.\<close>

definition isWhiteSpace :: "jschar \<Rightarrow> bool" where
  "isWhiteSpace c =
     (c = 0x0009 \<or> c = 0x000B \<or> c = 0x000C \<or> c = 0x0020 \<or> c = 0x00A0 \<or> c = 0x1680 \<or>
      (0x2000 \<le> c \<and> c \<le> 0x200A) \<or> c = 0x202F \<or> c = 0x205F \<or> c = 0x3000 \<or> c = 0xFEFF)"

text \<open>\<open>String.prototype.trimEnd\<close> removes trailing white space and line terminators.\<close>

definition trimmable :: "jschar \<Rightarrow> bool" where
  "trimmable c = (isWhiteSpace c \<or> isLineTerminator c)"

definition trimEnd :: "jsstring \<Rightarrow> jsstring" where
  "trimEnd s = rev (dropWhile trimmable (rev s))"

text \<open>\<open>s.indexOf(needle, position)\<close>: the least index \<open>k \<ge> position\<close> at which
  \<open>needle\<close> occurs in \<open>s\<close>; \<open>None\<close> stands for the result \<open>-1\<close>.\<close>

fun index_from :: "jsstring \<Rightarrow> jsstring \<Rightarrow> nat \<Rightarrow> nat option" where
  "index_from needle [] k = (if needle = [] then Some k else None)"
| "index_from needle (c # cs) k =
     (if prefix needle (c # cs) then Some k else index_from needle cs (Suc k))"

definition indexOf :: "jsstring \<Rightarrow> jsstring \<Rightarrow> nat \<Rightarrow> nat option" where
  "indexOf s needle position =
     index_from needle (drop position s) (min position (length s))"

text \<open>\<open>lines.join(sep)\<close>.\<close>

fun join :: "jsstring \<Rightarrow> jsstring list \<Rightarrow> jsstring" where
  "join sep [] = []"
| "join sep [x] = x"
| "join sep (x # y # ys) = x @ sep @ join sep (y # ys)"

text \<open>
  \<open>str.charAt(0).toUpperCase() + str.slice(1)\<close>. The case mapping
  \<open>String.prototype.toUpperCase\<close> is defined by the Unicode tables of the runtime and
  is a parameter of the model.
\<close>

definition charAt0 :: "jsstring \<Rightarrow> jsstring" where
  "charAt0 str = take 1 str"

definition replaceFirstCharToUpperCase :: "(jsstring \<Rightarrow> jsstring) \<Rightarrow> jsstring \<Rightarrow> jsstring" where
  "replaceFirstCharToUpperCase toUpperCase str = toUpperCase (charAt0 str) @ drop 1 str"

text \<open>The case mapping on ASCII letters, where it is the same in every runtime.\<close>

definition asciiUpper :: "jsstring \<Rightarrow> jsstring" where
  "asciiUpper s = map (\<lambda>c. if 0x61 \<le> c \<and> c \<le> 0x7A then c - 0x20 else c) s"

section \<open>Response-name normalization\<close>

text \<open>
  \<open>name.replace(/(.+)SuccessResponse$/, "$1Response")\<close>, written inline in
  \<open>extractFunctionSchema\<close>; here it is the function \<open>normalizeResponseName\<close>. The
  expression has no flags: it matches code units, \<open>$\<close> is the end of the input, and
  only the first match is replaced.

  \<open>dot_plus s\<close> lists the ways the greedy group \<open>(.+)\<close> can match at the start of
  \<open>s\<close>, as (captured text, remaining text), the longest first: the order in which a
  backtracking matcher tries them.
\<close>

fun dot_plus :: "jsstring \<Rightarrow> (jsstring \<times> jsstring) list" where
  "dot_plus [] = []"
| "dot_plus (c # cs) =
     (if isLineTerminator c then []
      else map (\<lambda>(g, r). (c # g, r)) (dot_plus cs) @ [([c], cs)])"

text \<open>A match of the whole pattern at the start of \<open>s\<close>: after the group the literal
  \<open>SuccessResponse\<close> must follow, and then the end of the input (\<open>$\<close>).\<close>

definition match_at :: "jsstring \<Rightarrow> jsstring option" where
  "match_at s = map_option fst (find (\<lambda>(g, r). r = js ''SuccessResponse'') (dot_plus s))"

text \<open>The search tries the start positions from left to right; \<open>pre\<close> is the text
  before the current position. At the end of the input no match is possible, as the
  group needs one code unit.\<close>

fun regex_exec :: "jsstring \<Rightarrow> jsstring \<Rightarrow> (jsstring \<times> jsstring) option" where
  "regex_exec pre [] = None"
| "regex_exec pre (c # cs) =
     (case match_at (c # cs) of
        Some g \<Rightarrow> Some (pre, g)
      | None \<Rightarrow> regex_exec (pre @ [c]) cs)"

text \<open>The first match is replaced by \<open>$1Response\<close>; the match ends at the end of the
  name, so nothing follows the replacement.\<close>

definition normalizeResponseName :: "jsstring \<Rightarrow> jsstring" where
  "normalizeResponseName name =
     (case regex_exec [] name of
        None \<Rightarrow> name
      | Some (pre, g) \<Rightarrow> pre @ g @ js ''Response'')"

section \<open>Errors\<close>

text \<open>
  Every failure of the program is a \<open>throw new Error(message)\<close> (or a rejected
  promise of a library). One constructor stands for each throw site and carries the
  values interpolated into its message:
  \<^item> \<open>FunctionNotFound f p\<close>: \<open>Function f not found in p\<close>;
  \<^item> \<open>RequestTypeNotFound p\<close>: \<open>Request type name not found in p\<close>;
  \<^item> \<open>NotPromise f p\<close>: \<open>Function f does not return Promise in p\<close>;
  \<^item> \<open>CannotExtractResponseType p\<close>: \<open>Cannot extract response type from Promise in p\<close>;
  \<^item> \<open>ResponseTypeNotFound p\<close>: \<open>Response type name not found in p\<close>;
  \<^item> \<open>ConvertRejected m\<close>: the promise of \<open>convert\<close> was rejected;
  \<^item> \<open>ToJsonSchemaThrew m\<close>: \<open>toJsonSchema\<close> threw;
  \<^item> \<open>SectionNotFound\<close>: \<open>Section ## API not found in SUMMARY.md\<close>;
  \<^item> \<open>ListFailed status body\<close>: \<open>Failed to list GitBook specs (status): body\<close>;
  \<^item> \<open>DeleteFailed slug status body\<close>: \<open>Delete failed for slug (status): body\<close>;
  \<^item> \<open>UpdateFailed slug status body\<close>, \<open>UploadFailed slug status body\<close>:
    \<open>Update failed for ...\<close> and \<open>Upload failed for ...\<close>.
  The specification names kinds of errors instead: \<open>NotFoundError\<close> for an absent
  symbol or schema name (the first, second and fifth), \<open>InvalidReturnTypeError\<close> for a
  return type of the wrong shape (the third and fourth), \<open>SectionNotFoundError\<close> and
  \<open>RemoteAPIError\<close> (the last four).
\<close>

datatype error =
    FunctionNotFound jsstring jsstring
  | RequestTypeNotFound jsstring
  | NotPromise jsstring jsstring
  | CannotExtractResponseType jsstring
  | ResponseTypeNotFound jsstring
  | ConvertRejected jsstring
  | SectionNotFound
  | ListFailed nat jsstring
  | DeleteFailed jsstring nat jsstring
  | UpdateFailed jsstring nat jsstring
  | UploadFailed jsstring nat jsstring
  | ToJsonSchemaThrew jsstring

section \<open>Schema Resolver: \<open>extractFunctionSchema\<close>\<close>

text \<open>
  The symbol table returned by the documentation parser (\<open>doc\<close>) is a list of nodes.
  A node has a name and a kind; a function node carries its declared return type; a
  type is a reference (a name and, possibly, type parameters) or something else.
  \<^item> \<open>TypeRef typeName typeParams\<close> is a type of kind \<open>typeRef\<close>;
  \<^item> \<open>FunctionDef returnType\<close> is the definition of a node of kind \<open>function\<close>,
    with \<open>functionDef.returnType\<close>;
  \<^item> \<open>jsDoc_tags\<close> is \<open>jsDoc?.tags\<close>, and \<open>tag_doc\<close> the property \<open>doc\<close> of a tag;
  \<^item> \<open>FunctionSchema\<close> is the result \<open>{request, response, example}\<close>.
  An absent optional value is \<open>None\<close>.
\<close>

datatype TsTypeDef =
    TypeRef jsstring "TsTypeDef list option"
  | OtherTsType

datatype DocNodeDef =
    FunctionDef "TsTypeDef option"
  | OtherDef

record JsDocTag =
  tag_kind :: jsstring
  tag_doc :: "jsstring option"

record DocNode =
  name :: jsstring
  def :: DocNodeDef
  jsDoc_tags :: "JsDocTag list option"

record FunctionSchema =
  request :: jsstring
  response :: jsstring
  example :: "jsstring option"

fun isFunction :: "DocNode \<Rightarrow> bool" where
  "isFunction node = (case def node of FunctionDef _ \<Rightarrow> True | OtherDef \<Rightarrow> False)"

fun returnType :: "DocNode \<Rightarrow> TsTypeDef option" where
  "returnType node = (case def node of FunctionDef rt \<Rightarrow> rt | OtherDef \<Rightarrow> None)"

text \<open>\<open>docNodes.find((node) => node.name === n)\<close>.\<close>

definition findByName :: "DocNode list \<Rightarrow> jsstring \<Rightarrow> DocNode option" where
  "findByName docNodes n = find (\<lambda>node. name node = n) docNodes"

text \<open>The \<open>@example\<close> tag of the function's JSDoc, if there is one with a text.\<close>

definition findExample :: "DocNode \<Rightarrow> jsstring option" where
  "findExample functionNode =
     (case jsDoc_tags functionNode of
        None \<Rightarrow> None
      | Some tags \<Rightarrow>
          (case find (\<lambda>tag. tag_kind tag = js ''example'') tags of
             None \<Rightarrow> None
           | Some exampleTag \<Rightarrow> tag_doc exampleTag))"

text \<open>"Find request schema by name": the direct name, then the
  \<open>{FunctionName}{Endpoint}Request\<close> pattern.\<close>

definition findRequestNode :: "DocNode list \<Rightarrow> jsstring \<Rightarrow> jsstring \<Rightarrow> DocNode option" where
  "findRequestNode docNodes functionNameUpperCase endpointUpperCase =
     (case findByName docNodes (functionNameUpperCase @ js ''Request'') of
        Some requestNode \<Rightarrow> Some requestNode
      | None \<Rightarrow>
          findByName docNodes (functionNameUpperCase @ endpointUpperCase @ js ''Request''))"

text \<open>"Find response schema by name": the direct name, then the
  \<open>{FunctionName}{Endpoint}Response\<close> pattern, then the type parameter of the
  function's \<open>Promise\<close> return type.\<close>

definition findResponseNode ::
  "DocNode list \<Rightarrow> jsstring \<Rightarrow> jsstring \<Rightarrow> DocNode \<Rightarrow> jsstring \<Rightarrow> jsstring \<Rightarrow> error + DocNode"
where
  "findResponseNode docNodes filePath functionName functionNode functionNameUpperCase
       endpointUpperCase =
     (case findByName docNodes (functionNameUpperCase @ js ''Response'') of
        Some responseNode \<Rightarrow> Inr responseNode
      | None \<Rightarrow>
     (case findByName docNodes (functionNameUpperCase @ endpointUpperCase @ js ''Response'') of
        Some responseNode \<Rightarrow> Inr responseNode
      | None \<Rightarrow>
     (case returnType functionNode of
        Some (TypeRef typeName typeParams) \<Rightarrow>
          if typeName \<noteq> js ''Promise'' then Inl (NotPromise functionName filePath)
          else
            (case typeParams of
               Some (TypeRef responseTypeName _ # _) \<Rightarrow>
                 if responseTypeName = [] then Inl (ResponseTypeNotFound filePath)
                 else
                   (case findByName docNodes responseTypeName of
                      None \<Rightarrow> Inl (ResponseTypeNotFound filePath)
                    | Some responseNode \<Rightarrow> Inr responseNode)
             | _ \<Rightarrow> Inl (CannotExtractResponseType filePath))
      | _ \<Rightarrow> Inl (NotPromise functionName filePath))))"

text \<open>\<open>docNodes\<close> is the parser's answer for the source file at \<open>filePath\<close>.\<close>

definition extractFunctionSchema ::
  "(jsstring \<Rightarrow> jsstring) \<Rightarrow> DocNode list \<Rightarrow> jsstring \<Rightarrow> jsstring \<Rightarrow> jsstring
     \<Rightarrow> error + FunctionSchema"
where
  "extractFunctionSchema toUpperCase docNodes filePath functionName endpoint =
     (case find (\<lambda>node. name node = functionName \<and> isFunction node) docNodes of
        None \<Rightarrow> Inl (FunctionNotFound functionName filePath)
      | Some functionNode \<Rightarrow>
          (let example = findExample functionNode;
               functionNameUpperCase = replaceFirstCharToUpperCase toUpperCase functionName;
               endpointUpperCase = replaceFirstCharToUpperCase toUpperCase endpoint
           in case findRequestNode docNodes functionNameUpperCase endpointUpperCase of
                None \<Rightarrow> Inl (RequestTypeNotFound filePath)
              | Some requestNode \<Rightarrow>
                  (case findResponseNode docNodes filePath functionName functionNode
                          functionNameUpperCase endpointUpperCase of
                     Inl e \<Rightarrow> Inl e
                   | Inr responseNode \<Rightarrow>
                       Inr \<lparr>request = name requestNode,
                            response = normalizeResponseName (name responseNode),
                            example = example\<rparr>)))"

section \<open>OpenAPI Assembler: \<open>jsonSchemasToOpenAPIs\<close>\<close>

text \<open>JSON values. An object is the list of its properties in property order; a
  JavaScript object has each key once.\<close>

datatype json =
    JNull
  | JBool bool
  | JNumber int
  | JString jsstring
  | JArray "json list"
  | JObject "(jsstring \<times> json) list"

text \<open>\<open>type Endpoint = "info" | "exchange"\<close>.\<close>

datatype Endpoint = Info | Exchange

fun endpoint_str :: "Endpoint \<Rightarrow> jsstring" where
  "endpoint_str Info = js ''info''"
| "endpoint_str Exchange = js ''exchange''"

text \<open>\<open>Record<Endpoint, Record<string, 'a>>\<close>: for each of the two endpoints, the
  methods in property order. The objects of this type are all created by the literal
  \<open>{ info: {}, exchange: {} }\<close>, so that \<open>Object.keys\<close> lists \<open>info\<close> first.\<close>

record 'a ByEndpoint =
  info :: "(jsstring \<times> 'a) list"
  exchange :: "(jsstring \<times> 'a) list"

fun at :: "'a ByEndpoint \<Rightarrow> Endpoint \<Rightarrow> (jsstring \<times> 'a) list" where
  "at r Info = info r"
| "at r Exchange = exchange r"

fun put_at :: "'a ByEndpoint \<Rightarrow> Endpoint \<Rightarrow> (jsstring \<times> 'a) list \<Rightarrow> 'a ByEndpoint" where
  "put_at r Info ms = r\<lparr>info := ms\<rparr>"
| "put_at r Exchange ms = r\<lparr>exchange := ms\<rparr>"

text \<open>\<open>Object.keys(r)\<close> and \<open>Object.entries(r)\<close>.\<close>

definition object_keys :: "'a ByEndpoint \<Rightarrow> Endpoint list" where
  "object_keys r = [Info, Exchange]"

definition object_entries :: "'a ByEndpoint \<Rightarrow> (Endpoint \<times> (jsstring \<times> 'a) list) list" where
  "object_entries r = [(Info, info r), (Exchange, exchange r)]"

text \<open>\<open>{ request: JSONSchema7; response: JSONSchema7 }\<close>.\<close>

record SchemaPair =
  request_schema :: json
  response_schema :: json

type_synonym AllSchemas = "SchemaPair ByEndpoint"
type_synonym OpenAPISpecs = "json ByEndpoint"

text \<open>Reading a property of a JSON value; \<open>None\<close> is \<open>undefined\<close>.\<close>

fun property :: "json \<Rightarrow> jsstring \<Rightarrow> json option" where
  "property (JObject fs) k = map_of fs k"
| "property _ k = None"

text \<open>\<open>schema.description || ""\<close>. By the type \<open>JSONSchema7\<close> the property is a
  string or absent; the empty string is falsy and is replaced by itself.\<close>

definition description_or_empty :: "json \<Rightarrow> jsstring" where
  "description_or_empty schema =
     (case property schema (js ''description'') of
        Some (JString d) \<Rightarrow> d
      | _ \<Rightarrow> [])"

subsection \<open>The version of \<open>src/unnamed/part_000\<close>\<close>

definition openapi_spec :: "Endpoint \<Rightarrow> jsstring \<Rightarrow> json \<Rightarrow> json \<Rightarrow> json \<Rightarrow> json \<Rightarrow> json" where
  "openapi_spec endpoint method requestSchema responseSchema openapiRequest
       openapiResponse =
     JObject [
       (js ''openapi'', JString (js ''3.1.1'')),
       (js ''info'', JObject [
          (js ''title'',
             JString (js ''Hyperliquid API - '' @ endpoint_str endpoint @ js ''/'' @ method)),
          (js ''version'', JString (js ''1.0.0''))]),
       (js ''servers'', JArray [
          JObject [(js ''url'', JString (js ''https://api.hyperliquid.xyz'')),
                   (js ''description'', JString (js ''Mainnet''))],
          JObject [(js ''url'', JString (js ''https://api.hyperliquid-testnet.xyz'')),
                   (js ''description'', JString (js ''Testnet''))]]),
       (js ''tags'', JArray [
          JObject [(js ''name'', JString method),
                   (js ''x-page-title'', JString method),
                   (js ''x-page-slug'', JString method)]]),
       (js ''paths'', JObject [
          (js ''/'' @ endpoint_str endpoint, JObject [
             (js ''post'', JObject [
                (js ''tags'', JArray [JString method]),
                (js ''description'', JString (description_or_empty requestSchema)),
                (js ''requestBody'', JObject [
                   (js ''content'', JObject [
                      (js ''application/json'', JObject [(js ''schema'', openapiRequest)])]),
                   (js ''required'', JBool True)]),
                (js ''responses'', JObject (
                   [(js ''200'', JObject [
                       (js ''description'', JString (description_or_empty responseSchema)),
                       (js ''content'', JObject [
                          (js ''application/json'', JObject [(js ''schema'', openapiResponse)])])]),
                    (js ''422'', JObject [
                       (js ''description'',
                          JString (js ''Failed to deserialize the JSON body into the target type'')),
                       (js ''content'', JObject [
                          (js ''text/plain'', JObject [
                             (js ''schema'', JObject [(js ''type'', JString (js ''string''))])])])])]
                   @ (if endpoint = Info
                      then [(js ''500'', JObject [
                              (js ''description'', JString (js ''Internal Server Error'')),
                              (js ''content'', JObject [
                                 (js ''application/json'', JObject [
                                    (js ''schema'', JObject [(js ''type'', JString (js ''null''))])])])])]
                      else [])))])])])]"

text \<open>
  The inner loop over the methods of one endpoint. \<open>convert\<close> is the library function
  of the same name; its promise may be rejected, which aborts the run.
  \<open>result[endpoint][method] = spec\<close> replaces the property or appends it.
\<close>

fun convert_methods ::
  "(json \<Rightarrow> error + json) \<Rightarrow> Endpoint \<Rightarrow> (jsstring \<times> SchemaPair) list \<Rightarrow> OpenAPISpecs
     \<Rightarrow> error + OpenAPISpecs"
where
  "convert_methods convert endpoint [] result = Inr result"
| "convert_methods convert endpoint ((method, pair) # rest) result =
     (case convert (request_schema pair) of
        Inl e \<Rightarrow> Inl e
      | Inr openapiRequest \<Rightarrow>
          (case convert (response_schema pair) of
             Inl e \<Rightarrow> Inl e
           | Inr openapiResponse \<Rightarrow>
               convert_methods convert endpoint rest
                 (put_at result endpoint
                    (AList.update method
                       (openapi_spec endpoint method (request_schema pair) (response_schema pair)
                          openapiRequest openapiResponse)
                       (at result endpoint)))))"

fun convert_endpoints ::
  "(json \<Rightarrow> error + json) \<Rightarrow> AllSchemas \<Rightarrow> Endpoint list \<Rightarrow> OpenAPISpecs \<Rightarrow> error + OpenAPISpecs"
where
  "convert_endpoints convert schemas [] result = Inr result"
| "convert_endpoints convert schemas (endpoint # rest) result =
     (case convert_methods convert endpoint (at schemas endpoint) result of
        Inl e \<Rightarrow> Inl e
      | Inr result' \<Rightarrow> convert_endpoints convert schemas rest result')"

definition jsonSchemasToOpenAPIs ::
  "(json \<Rightarrow> error + json) \<Rightarrow> AllSchemas \<Rightarrow> error + OpenAPISpecs"
where
  "jsonSchemasToOpenAPIs convert schemas =
     convert_endpoints convert schemas (object_keys schemas) \<lparr>info = [], exchange = []\<rparr>"

subsection \<open>The version of \<open>src/update.ts\<close>\<close>

definition openapi_spec_update_ts ::
  "Endpoint \<Rightarrow> jsstring \<Rightarrow> json \<Rightarrow> json \<Rightarrow> json \<Rightarrow> json \<Rightarrow> json"
where
  "openapi_spec_update_ts endpoint method requestSchema responseSchema openapiRequest
       openapiResponse =
     JObject [
       (js ''openapi'', JString (js ''3.1.1'')),
       (js ''info'', JObject [
          (js ''title'',
             JString (js ''Hyperliquid API - '' @ endpoint_str endpoint @ js ''/'' @ method)),
          (js ''version'', JString (js ''1.0.0''))]),
       (js ''servers'', JArray [
          JObject [(js ''url'', JString (js ''https://api.hyperliquid.xyz'')),
                   (js ''description'', JString (js ''Mainnet''))],
          JObject [(js ''url'', JString (js ''https://api.hyperliquid-testnet.xyz'')),
                   (js ''description'', JString (js ''Testnet''))]]),
       (js ''tags'', JArray [
          JObject [(js ''name'', JString method),
                   (js ''x-page-title'', JString method),
                   (js ''x-page-slug'', JString method)]]),
       (js ''paths'', JObject [
          (js ''/'' @ endpoint_str endpoint, JObject [
             (js ''post'', JObject [
                (js ''tags'', JArray [JString method]),
                (js ''description'', JString (description_or_empty requestSchema)),
                (js ''requestBody'', JObject [
                   (js ''content'', JObject [
                      (js ''application/json'', JObject [(js ''schema'', openapiRequest)])]),
                   (js ''required'', JBool True)]),
                (js ''responses'', JObject (
                   [(js ''200'', JObject [
                       (js ''description'', JString (description_or_empty responseSchema)),
                       (js ''content'', JObject [
                          (js ''application/json'', JObject [(js ''schema'', openapiResponse)])])]),
                    (js ''422'', JObject [
                       (js ''description'',
                          JString (js ''Failed to deserialize the JSON body into the target type'')),
                       (js ''content'', JObject [
                          (js ''text/plain'', JObject [
                             (js ''schema'', JObject [(js ''type'', JString (js ''string''))])])])])]
                   @ (if endpoint = Info
                      then [(js ''500'', JObject [
                              (js ''description'', JString (js ''Internal Server Error'')),
                              (js ''content'', JObject [
                                 (js ''application/json'', JObject [
                                    (js ''schema'', JObject [(js ''type'', JString (js ''null''))])])])])]
                      else [])))])])])]"

fun convert_methods_update_ts ::
  "(json \<Rightarrow> error + json) \<Rightarrow> Endpoint \<Rightarrow> (jsstring \<times> SchemaPair) list \<Rightarrow> OpenAPISpecs
     \<Rightarrow> error + OpenAPISpecs"
where
  "convert_methods_update_ts convert endpoint [] result = Inr result"
| "convert_methods_update_ts convert endpoint ((method, pair) # rest) result =
     (case convert (request_schema pair) of
        Inl e \<Rightarrow> Inl e
      | Inr openapiRequest \<Rightarrow>
          (case convert (response_schema pair) of
             Inl e \<Rightarrow> Inl e
           | Inr openapiResponse \<Rightarrow>
               convert_methods_update_ts convert endpoint rest
                 (put_at result endpoint
                    (AList.update method
                       (openapi_spec_update_ts endpoint method (request_schema pair)
                          (response_schema pair) openapiRequest openapiResponse)
                       (at result endpoint)))))"

fun convert_endpoints_update_ts ::
  "(json \<Rightarrow> error + json) \<Rightarrow> AllSchemas \<Rightarrow> Endpoint list \<Rightarrow> OpenAPISpecs \<Rightarrow> error + OpenAPISpecs"
where
  "convert_endpoints_update_ts convert schemas [] result = Inr result"
| "convert_endpoints_update_ts convert schemas (endpoint # rest) result =
     (case convert_methods_update_ts convert endpoint (at schemas endpoint) result of
        Inl e \<Rightarrow> Inl e
      | Inr result' \<Rightarrow> convert_endpoints_update_ts convert schemas rest result')"

definition jsonSchemasToOpenAPIs_update_ts ::
  "(json \<Rightarrow> error + json) \<Rightarrow> AllSchemas \<Rightarrow> error + OpenAPISpecs"
where
  "jsonSchemasToOpenAPIs_update_ts convert schemas =
     convert_endpoints_update_ts convert schemas (object_keys schemas)
       \<lparr>info = [], exchange = []\<rparr>"


section \<open>Schema extraction without the Resolver: \<open>getAllSchemas\<close> of \<open>src/update.ts\<close>\<close>





section \<open>Table-of-Contents Updater: \<open>updateSummary\<close>\<close>

text \<open>The function reads \<open>SUMMARY.md\<close>, computes the new text and writes it back. The
  model is the function from the text read to the text written. The code is the same in
  \<open>src/update.ts\<close> and \<open>src/unnamed/part_000\<close>.\<close>

definition newline :: jsstring where
  "newline = [0x000A]"

definition apiHeader :: jsstring where
  "apiHeader = js ''## API''"

definition nextHeader :: jsstring where
  "nextHeader = newline @ js ''## ''"

text \<open>The eleven lines pushed for one method.\<close>

definition method_lines :: "jsstring \<Rightarrow> jsstring \<Rightarrow> jsstring list" where
  "method_lines section method =
     [js ''  - ```yaml'',
      js ''    type: builtin:openapi'',
      js ''    props:'',
      js ''      models: false'',
      js ''      downloadLink: false'',
      js ''    dependencies:'',
      js ''      spec:'',
      js ''        ref:'',
      js ''          kind: openapi'',
      js ''          spec: hl-'' @ section @ js ''-'' @ method,
      js ''    ```'']"

text \<open>The loop over the sections. \<open>Object.keys(o).sort()\<close> sorts by code units, which
  is the lexicographic order of the lists.\<close>

fun section_loop ::
  "(jsstring \<Rightarrow> jsstring) \<Rightarrow> 'a ByEndpoint \<Rightarrow> Endpoint list \<Rightarrow> jsstring list \<Rightarrow> jsstring list"
where
  "section_loop toUpperCase openapiSpecs [] lines = lines"
| "section_loop toUpperCase openapiSpecs (section # rest) lines =
     (let methods = sort (map fst (at openapiSpecs section)) in
      if methods = [] then section_loop toUpperCase openapiSpecs rest lines
      else section_loop toUpperCase openapiSpecs rest
             (lines
              @ [js ''- '' @ toUpperCase (charAt0 (endpoint_str section))
                   @ drop 1 (endpoint_str section)]
              @ concat (map (method_lines (endpoint_str section)) methods)
              @ [Nil]))"

definition api_section_lines :: "(jsstring \<Rightarrow> jsstring) \<Rightarrow> 'a ByEndpoint \<Rightarrow> jsstring list" where
  "api_section_lines toUpperCase openapiSpecs =
     section_loop toUpperCase openapiSpecs
       (sort_key endpoint_str (object_keys openapiSpecs)) [js ''## API'', []]
     @ [Nil]"

definition updateSummary ::
  "(jsstring \<Rightarrow> jsstring) \<Rightarrow> 'a ByEndpoint \<Rightarrow> jsstring \<Rightarrow> error + jsstring"
where
  "updateSummary toUpperCase openapiSpecs summary =
     (case indexOf summary apiHeader 0 of
        None \<Rightarrow> Inl SectionNotFound
      | Some start \<Rightarrow>
          (let nextHeaderIndex = indexOf summary nextHeader (start + length apiHeader);
               prefix = take start summary;
               suffix = (case nextHeaderIndex of None \<Rightarrow> [] | Some k \<Rightarrow> drop k summary);
               lines = api_section_lines toUpperCase openapiSpecs
           in Inr (trimEnd (prefix @ join newline lines @ suffix) @ newline)))"

section \<open>Publisher: \<open>updateGitBookOpenAPIs\<close>\<close>

text \<open>
  The code is the same in \<open>src/update.ts\<close> and \<open>src/unnamed/part_000\<close>.

  \<open>apiBase\<close>, and the two URL texts that the code builds by template literals:
  \<open>`${apiBase}/orgs/${orgId}/openapi`\<close> and \<open>`${apiBase}/orgs/${orgId}/openapi/${slug}`\<close>.
  The values of \<open>orgId\<close> and \<open>slug\<close> are spliced in as they are; nothing is encoded.
\<close>

definition apiBase :: jsstring where
  "apiBase = js ''https://api.gitbook.com/v1''"

definition collection_url :: "jsstring \<Rightarrow> jsstring" where
  "collection_url orgId = apiBase @ js ''/orgs/'' @ orgId @ js ''/openapi''"

definition spec_url :: "jsstring \<Rightarrow> jsstring \<Rightarrow> jsstring" where
  "spec_url orgId slug = apiBase @ js ''/orgs/'' @ orgId @ js ''/openapi/'' @ slug"

text \<open>
  The three calls of \<open>fetch\<close>, with the values that vary:
  \<^item> \<open>GET_url url limit page\<close>: \<open>fetch(u.toString(), {headers})\<close> where \<open>u\<close> is
    \<open>new URL(url)\<close> with the search parameter \<open>limit\<close> set and, from the second page on,
    the search parameter \<open>page\<close>. The URL object encodes the search parameters it is
    given, so they are kept as values, apart from the URL text;
  \<^item> \<open>DELETE_url url\<close>: \<open>fetch(url, {method: "DELETE", headers})\<close>;
  \<^item> \<open>PUT_url url text\<close>: \<open>fetch(url, {method: "PUT", headers, body})\<close> with the body
    \<open>JSON.stringify({source: {text}})\<close>.
  Each carries the header \<open>Authorization: Bearer {gitbookToken}\<close>, the first argument of
  \<open>fetch\<close> in the model.
\<close>

datatype http_request =
    GET_url jsstring nat "jsstring option"
  | DELETE_url jsstring
  | PUT_url jsstring jsstring

text \<open>What the program reads of a response: \<open>ok\<close>, \<open>status\<close>, the body as text and,
  for a listing, \<open>data.items\<close> (of each item only its slug) and \<open>data.next?.page\<close>.\<close>

record listing =
  items :: "jsstring list"
  next_page :: "jsstring option"

record http_response =
  ok :: bool
  status :: nat
  body :: jsstring
  data :: listing

text \<open>The outside world is a state \<open>'w\<close> that \<open>fetch\<close> reads and changes. The run
  state holds it, with the requests issued so far.\<close>

record 'w run_state =
  world :: 'w
  calls :: "http_request list"

type_synonym 'w fetch = "jsstring \<Rightarrow> http_request \<Rightarrow> 'w \<Rightarrow> http_response \<times> 'w"

definition do_fetch ::
  "'w fetch \<Rightarrow> jsstring \<Rightarrow> http_request \<Rightarrow> 'w run_state \<Rightarrow> http_response \<times> 'w run_state"
where
  "do_fetch fetch gitbookToken req st =
     (case fetch gitbookToken req (world st) of
        (res, w) \<Rightarrow> (res, \<lparr>world = w, calls = calls st @ [req]\<rparr>))"

text \<open>A local spec \<open>{slug, text}\<close>.\<close>

record LocalSpec =
  slug :: jsstring
  spec_text :: jsstring

text \<open>\<open>Array.prototype.sort(compare)\<close> is stable; for a consistent comparison such as
  \<open>localeCompare\<close> its result is that of this insertion sort. The comparison of the
  runtime's locale is a parameter.\<close>

fun insert_by :: "('a \<Rightarrow> 'a \<Rightarrow> int) \<Rightarrow> 'a \<Rightarrow> 'a list \<Rightarrow> 'a list" where
  "insert_by compare x [] = [x]"
| "insert_by compare x (y # ys) =
     (if compare x y \<le> 0 then x # y # ys else y # insert_by compare x ys)"

definition sort_by :: "('a \<Rightarrow> 'a \<Rightarrow> int) \<Rightarrow> 'a list \<Rightarrow> 'a list" where
  "sort_by compare xs = foldr (insert_by compare) xs []"

text \<open>"Collect local specs with slugs". \<open>stringify\<close> is \<open>JSON.stringify\<close>.\<close>

definition collect_specs ::
  "(json \<Rightarrow> jsstring) \<Rightarrow> (jsstring \<Rightarrow> jsstring \<Rightarrow> int) \<Rightarrow> OpenAPISpecs \<Rightarrow> LocalSpec list"
where
  "collect_specs stringify localeCompare openapiSpecs =
     sort_by (\<lambda>a b. localeCompare (slug a) (slug b))
       (concat (map (\<lambda>(section, methods).
                  map (\<lambda>(method, spec).
                        \<lparr>slug = js ''hl-'' @ endpoint_str section @ js ''-'' @ method,
                         spec_text = stringify spec\<rparr>) methods)
          (object_entries openapiSpecs)))"

text \<open>A value used as a condition: \<open>undefined\<close> and the empty string are falsy.\<close>

definition truthy :: "jsstring option \<Rightarrow> bool" where
  "truthy v = (case v of None \<Rightarrow> False | Some s \<Rightarrow> s \<noteq> [])"

text \<open>
  "Fetch existing GitBook OpenAPI specs with pagination": the \<open>do ... while (nextPage)\<close>
  loop. It runs for as long as the service names a next page, so the model counts the
  iterations down from \<open>fuel\<close>, and \<open>None\<close> is a run that has not ended by then.
\<close>

fun list_loop ::
  "'w fetch \<Rightarrow> jsstring \<Rightarrow> jsstring \<Rightarrow> nat \<Rightarrow> jsstring option \<Rightarrow> jsstring list \<Rightarrow> 'w run_state
     \<Rightarrow> ((error + jsstring list) \<times> 'w run_state) option"
where
  "list_loop fetch gitbookToken orgId 0 nextPage allRemoteSpecs st = None"
| "list_loop fetch gitbookToken orgId (Suc fuel) nextPage allRemoteSpecs st =
     (case do_fetch fetch gitbookToken
             (GET_url (collection_url orgId) 1000 (if truthy nextPage then nextPage else None))
             st of
        (listRes, st1) \<Rightarrow>
          if \<not> ok listRes then Some (Inl (ListFailed (status listRes) (body listRes)), st1)
          else
            (let allRemoteSpecs1 = allRemoteSpecs @ items (data listRes);
                 nextPage1 = next_page (data listRes)
             in if truthy nextPage1
                then list_loop fetch gitbookToken orgId fuel nextPage1 allRemoteSpecs1 st1
                else Some (Inr allRemoteSpecs1, st1)))"

text \<open>"Delete obsolete specs": the loop over \<open>remoteSlugs\<close>.\<close>

fun delete_loop ::
  "'w fetch \<Rightarrow> jsstring \<Rightarrow> jsstring \<Rightarrow> jsstring list \<Rightarrow> jsstring list \<Rightarrow> 'w run_state
     \<Rightarrow> (error + unit) \<times> 'w run_state"
where
  "delete_loop fetch gitbookToken orgId localSlugs [] st = (Inr (), st)"
| "delete_loop fetch gitbookToken orgId localSlugs (s # rest) st =
     (if s \<notin> set localSlugs
      then
        (case do_fetch fetch gitbookToken (DELETE_url (spec_url orgId s)) st of
           (delRes, st1) \<Rightarrow>
             if \<not> ok delRes then (Inl (DeleteFailed s (status delRes) (body delRes)), st1)
             else delete_loop fetch gitbookToken orgId localSlugs rest st1)
      else delete_loop fetch gitbookToken orgId localSlugs rest st)"

text \<open>"Upload/update specs": the loop over the local specs.\<close>

fun put_loop ::
  "'w fetch \<Rightarrow> jsstring \<Rightarrow> jsstring \<Rightarrow> jsstring list \<Rightarrow> LocalSpec list \<Rightarrow> 'w run_state
     \<Rightarrow> (error + unit) \<times> 'w run_state"
where
  "put_loop fetch gitbookToken orgId remoteSlugs [] st = (Inr (), st)"
| "put_loop fetch gitbookToken orgId remoteSlugs (s # rest) st =
     (let isUpdate = slug s \<in> set remoteSlugs in
      case do_fetch fetch gitbookToken (PUT_url (spec_url orgId (slug s)) (spec_text s)) st of
        (res, st1) \<Rightarrow>
          if \<not> ok res
          then (Inl ((if isUpdate then UpdateFailed else UploadFailed)
                       (slug s) (status res) (body res)), st1)
          else put_loop fetch gitbookToken orgId remoteSlugs rest st1)"

definition updateGitBookOpenAPIs ::
  "'w fetch \<Rightarrow> (json \<Rightarrow> jsstring) \<Rightarrow> (jsstring \<Rightarrow> jsstring \<Rightarrow> int) \<Rightarrow> nat
     \<Rightarrow> OpenAPISpecs \<Rightarrow> jsstring \<Rightarrow> jsstring \<Rightarrow> 'w run_state
     \<Rightarrow> ((error + unit) \<times> 'w run_state) option"
where
  "updateGitBookOpenAPIs fetch stringify localeCompare fuel openapiSpecs gitbookToken orgId st =
     (let specs = collect_specs stringify localeCompare openapiSpecs in
      if length specs = 0 then Some (Inr (), st)
      else
        (let localSlugs = map slug specs in
         case list_loop fetch gitbookToken orgId fuel None [] st of
           None \<Rightarrow> None
         | Some (Inl e, st1) \<Rightarrow> Some (Inl e, st1)
         | Some (Inr allRemoteSpecs, st1) \<Rightarrow>
             (let remoteSlugs = filter (prefix (js ''hl-'')) allRemoteSpecs in
              case delete_loop fetch gitbookToken orgId localSlugs remoteSlugs st1 of
                (Inl e, st2) \<Rightarrow> Some (Inl e, st2)
              | (Inr u, st2) \<Rightarrow>
                  Some (put_loop fetch gitbookToken orgId remoteSlugs specs st2))))"

text \<open>The URLs of the \<open>DELETE\<close> requests among the requests issued.\<close>

fun deleted_urls :: "http_request list \<Rightarrow> jsstring list" where
  "deleted_urls [] = []"
| "deleted_urls (DELETE_url url # rs) = url # deleted_urls rs"
| "deleted_urls (r # rs) = deleted_urls rs"

text \<open>The local slug set \<open>L\<close>: one slug for every (endpoint, method) of the map.\<close>

definition local_slugs :: "OpenAPISpecs \<Rightarrow> jsstring list" where
  "local_slugs openapiSpecs =
     map (\<lambda>m. js ''hl-info-'' @ m) (map fst (info openapiSpecs))
     @ map (\<lambda>m. js ''hl-exchange-'' @ m) (map fst (exchange openapiSpecs))"

text \<open>The outcome of a run that was not aborted while listing or deleting: it completed,
  or it failed in the upload phase.\<close>

fun reached_upload :: "error + unit \<Rightarrow> bool" where
  "reached_upload (Inr u) = True"
| "reached_upload (Inl (UpdateFailed s code msg)) = True"
| "reached_upload (Inl (UploadFailed s code msg)) = True"
| "reached_upload (Inl e) = False"

subsection \<open>The remote documentation host\<close>

text \<open>
  Modelled from the spec: the remote documentation-hosting REST service, which is not
  part of the repository. The spec (section 6) gives it three operations: a paged
  listing \<open>GET /orgs/{orgId}/{collection}\<close> answering \<open>{items, next?: {page}}\<close>, and
  \<open>DELETE\<close> and \<open>PUT /orgs/{orgId}/{collection}/{slug}\<close>, a delete and a
  create-or-replace by slug, each answering with success or with an error that has a
  body.

  The host stores one text for each slug. A request may fail for a reason of the host's
  own: \<open>outages\<close> says, for the requests to come, which of them are answered with status
  500 and have no effect. Deleting a slug that is not stored is answered with 404. The
  cursor of page \<open>k\<close> (from \<open>0\<close>) is a string of length \<open>k\<close>.

  The host is addressed by the URL of the request, read as HTTP reads it: the text from
  the first \<open>?\<close> or \<open>#\<close> on is the query or the fragment and no part of the path, and
  the path is cut into segments at every \<open>/\<close>. The paths served are
  \<open>{apiBase}/orgs/{org}/openapi\<close>, the collection, and
  \<open>{apiBase}/orgs/{org}/openapi/{slug}\<close>, the entry of that slug, with non-empty segments
  \<open>org\<close> and \<open>slug\<close> other than \<open>.\<close> and \<open>..\<close>; any other request is answered with 404.
  The host keeps one collection, that of the organization addressed.

  A URL parser escapes or drops some characters, and a host undoes escapes; that is not
  modelled. The model is meant for values of \<open>orgId\<close> and slugs that are one path segment
  as they stand (\<open>url_segment\<close>): made of the unreserved characters of RFC 3986, letters,
  digits, \<open>-\<close>, \<open>.\<close>, \<open>_\<close> and \<open>~\<close>.
\<close>

text \<open>The unreserved characters, and the strings that are one path segment as they
  stand.\<close>

definition unreserved :: "jschar \<Rightarrow> bool" where
  "unreserved c \<longleftrightarrow>
     (0x41 \<le> c \<and> c \<le> 0x5A) \<or> (0x61 \<le> c \<and> c \<le> 0x7A) \<or> (0x30 \<le> c \<and> c \<le> 0x39)
     \<or> c = 0x2D \<or> c = 0x2E \<or> c = 0x5F \<or> c = 0x7E"

definition dot_segment :: "jsstring \<Rightarrow> bool" where
  "dot_segment s \<longleftrightarrow> s = js ''.'' \<or> s = js ''..''"

definition url_segment :: "jsstring \<Rightarrow> bool" where
  "url_segment s \<longleftrightarrow> s \<noteq> [] \<and> \<not> dot_segment s \<and> list_all unreserved s"

text \<open>The URL without its query and fragment; the segments of a path, as
  \<open>path.split("/")\<close> gives them; what a URL addresses, \<open>None\<close> if the host serves
  nothing there.\<close>

definition url_path :: "jsstring \<Rightarrow> jsstring" where
  "url_path url = takeWhile (\<lambda>c. c \<noteq> 0x3F \<and> c \<noteq> 0x23) url"

fun split_slash :: "jsstring \<Rightarrow> jsstring list" where
  "split_slash [] = [Nil]"
| "split_slash (c # cs) =
     (if c = 0x2F then [] # split_slash cs
      else (case split_slash cs of
              [] \<Rightarrow> [c] # []
            | seg # segs \<Rightarrow> (c # seg) # segs))"

datatype resource = Collection | Entry jsstring

definition orgs_root :: jsstring where
  "orgs_root = apiBase @ js ''/orgs/''"

definition collection_name :: jsstring where
  "collection_name = js ''openapi''"

definition route :: "jsstring \<Rightarrow> resource option" where
  "route url =
     (let path = url_path url in
      if \<not> prefix orgs_root path then None
      else
        (case split_slash (drop (length orgs_root) path) of
           [org, c] \<Rightarrow>
             if org \<noteq> [] \<and> \<not> dot_segment org \<and> c = collection_name then Some Collection
             else None
         | [org, c, s] \<Rightarrow>
             if org \<noteq> [] \<and> \<not> dot_segment org \<and> c = collection_name
                \<and> s \<noteq> [] \<and> \<not> dot_segment s
             then Some (Entry s)
             else None
         | _ \<Rightarrow> None))"

record remote =
  entries :: "(jsstring \<times> jsstring) list"
  outages :: "bool list"

definition cursor_of :: "nat \<Rightarrow> jsstring option" where
  "cursor_of k = (if k = 0 then None else Some (replicate k (of_char CHR ''p'')))"

definition page_of :: "jsstring option \<Rightarrow> nat" where
  "page_of page = (case page of None \<Rightarrow> 0 | Some c \<Rightarrow> length c)"

definition failure :: "nat \<Rightarrow> jsstring \<Rightarrow> http_response" where
  "failure code msg =
     \<lparr>ok = False, status = code, body = msg, data = \<lparr>items = [], next_page = None\<rparr>\<rparr>"

definition success :: "listing \<Rightarrow> http_response" where
  "success d = \<lparr>ok = True, status = 200, body = [], data = d\<rparr>"

definition not_found :: http_response where
  "not_found = failure 404 (js ''Not Found'')"

definition remote_fetch :: "remote fetch" where
  "remote_fetch authorization req w =
     (case outages w of
        True # later \<Rightarrow> (failure 500 (js ''Internal Server Error''), w\<lparr>outages := later\<rparr>)
      | _ \<Rightarrow>
          (let w1 = w\<lparr>outages := tl (outages w)\<rparr> in
           case req of
             GET_url url limit page \<Rightarrow>
               (case route url of
                  Some Collection \<Rightarrow>
                    (let rest = drop (page_of page * limit) (map fst (entries w)) in
                     (success \<lparr>items = take limit rest,
                               next_page = (if limit < length rest
                                            then cursor_of (Suc (page_of page)) else None)\<rparr>,
                      w1))
                | _ \<Rightarrow> (not_found, w1))
           | DELETE_url url \<Rightarrow>
               (case route url of
                  Some (Entry s) \<Rightarrow>
                    if s \<in> set (map fst (entries w))
                    then (success \<lparr>items = [], next_page = None\<rparr>,
                          w1\<lparr>entries := AList.delete s (entries w)\<rparr>)
                    else (not_found, w1)
                | _ \<Rightarrow> (not_found, w1))
           | PUT_url url t \<Rightarrow>
               (case route url of
                  Some (Entry s) \<Rightarrow>
                    (success \<lparr>items = [], next_page = None\<rparr>,
                     w1\<lparr>entries := AList.update s t (entries w)\<rparr>)
                | _ \<Rightarrow> (not_found, w1))))"

text \<open>The remote slug set \<open>R\<close>, restricted to the reserved prefix.\<close>

definition remote_slugs :: "remote \<Rightarrow> jsstring list" where
  "remote_slugs w = filter (prefix (js ''hl-'')) (map fst (entries w))"

section \<open>Auxiliary notions of the proofs\<close>



text \<open>The needle occurs in the text at index \<open>i\<close>; the first occurrence is at \<open>i\<close>;
  the needle occurs somewhere.\<close>

definition occurs_at :: "jsstring \<Rightarrow> jsstring \<Rightarrow> nat \<Rightarrow> bool" where
  "occurs_at needle s i \<longleftrightarrow> i \<le> length s \<and> prefix needle (drop i s)"

definition first_at :: "jsstring \<Rightarrow> jsstring \<Rightarrow> nat \<Rightarrow> bool" where
  "first_at needle s i \<longleftrightarrow> occurs_at needle s i \<and> (\<forall>j<i. \<not> occurs_at needle s j)"

definition occurs :: "jsstring \<Rightarrow> jsstring \<Rightarrow> bool" where
  "occurs needle s \<longleftrightarrow> (\<exists>i. occurs_at needle s i)"

text \<open>A matching automaton for the needle \<open>\n## \<close>: the state is the length of the
  longest prefix of the needle that ends the text read so far, and \<open>4\<close> once the needle
  has been read.\<close>

fun step :: "nat \<Rightarrow> jschar \<Rightarrow> nat" where
  "step q c =
     (if q = 4 then 4
      else if c = 0x000A then 1
      else if q = 1 \<and> c = 0x0023 then 2
      else if q = 2 \<and> c = 0x0023 then 3
      else if q = 3 \<and> c = 0x0020 then 4
      else 0)"

definition scan :: "nat \<Rightarrow> jsstring \<Rightarrow> nat" where
  "scan q s = foldl step q s"

text \<open>The lines that the loop of \<open>updateSummary\<close> adds for one section.\<close>

definition section_chunk ::
  "(jsstring \<Rightarrow> jsstring) \<Rightarrow> 'a ByEndpoint \<Rightarrow> Endpoint \<Rightarrow> jsstring list"
where
  "section_chunk toUpperCase openapiSpecs section =
     (let methods = sort (map fst (at openapiSpecs section)) in
      if methods = [] then []
      else [js ''- '' @ toUpperCase (charAt0 (endpoint_str section))
              @ drop 1 (endpoint_str section)]
           @ concat (map (method_lines (endpoint_str section)) methods)
           @ [Nil])"

declare step.simps [simp del]

text \<open>The text of the generated section between the header line and the last line
  break: every line of the sections, each after a line break.\<close>

definition section_text :: "(jsstring \<Rightarrow> jsstring) \<Rightarrow> 'a ByEndpoint \<Rightarrow> jsstring" where
  "section_text up specs =
     concat (map ((@) newline)
       (concat (map (section_chunk up specs) (sort_key endpoint_str (object_keys specs)))))"

text \<open>Reading a line break and then the line never completes the needle.\<close>

definition line_ok :: "jsstring \<Rightarrow> bool" where
  "line_ok l \<longleftrightarrow> (\<forall>q. q \<noteq> 4 \<longrightarrow> scan q (newline @ l) \<noteq> 4)"

text \<open>The last line of a method entry; a non-empty list of section lines ends with it
  and an empty line.\<close>

definition fence :: jsstring where
  "fence = js ''    ```''"

definition ends_ok :: "jsstring list \<Rightarrow> bool" where
  "ends_ok ls \<longleftrightarrow> ls = [] \<or> (\<exists>ls0. ls = ls0 @ [fence, []])"

section \<open>Properties of the response-name normalization\<close>

lemma dot_plus_set:
  "(g, r) \<in> set (dot_plus s) \<longleftrightarrow> g \<noteq> [] \<and> s = g @ r \<and> (\<forall>c\<in>set g. \<not> isLineTerminator c)"
proof (induction s arbitrary: g r)
  case Nil
  then show ?case by simp
next
  case (Cons c cs)
  show ?case
  proof (cases "isLineTerminator c")
    case True
    then show ?thesis by (cases g) auto
  next
    case False
    then show ?thesis using Cons.IH
      by (cases g) (auto simp: Cons_eq_append_conv)
  qed
qed

lemma match_at_Some:
  assumes "match_at s = Some g"
  shows "g \<noteq> [] \<and> \<not> isLineTerminator (last g) \<and> s = g @ js ''SuccessResponse''"
proof -
  from assms obtain r where "find (\<lambda>(g, r). r = js ''SuccessResponse'') (dot_plus s) = Some (g, r)"
    by (auto simp: match_at_def)
  then have "(g, r) \<in> set (dot_plus s)" and "r = js ''SuccessResponse''"
    by (auto simp: find_Some_iff in_set_conv_nth)
  then show ?thesis by (simp add: dot_plus_set)
qed

lemma match_at_None:
  assumes "match_at s = None" and "g \<noteq> []" and "\<forall>c\<in>set g. \<not> isLineTerminator c"
  shows "s \<noteq> g @ js ''SuccessResponse''"
proof
  assume "s = g @ js ''SuccessResponse''"
  with assms(2,3) have "(g, js ''SuccessResponse'') \<in> set (dot_plus s)"
    by (simp add: dot_plus_set)
  with assms(1) show False
    by (auto simp: match_at_def find_None_iff)
qed

lemma regex_exec_Some:
  "regex_exec pre s = Some (p, g) \<Longrightarrow>
     g \<noteq> [] \<and> \<not> isLineTerminator (last g) \<and> pre @ s = p @ g @ js ''SuccessResponse''"
proof (induction s arbitrary: pre)
  case Nil
  then show ?case by simp
next
  case (Cons c cs)
  show ?case
  proof (cases "match_at (c # cs)")
    case None
    with Cons.prems have "regex_exec (pre @ [c]) cs = Some (p, g)" by simp
    from Cons.IH [OF this] show ?thesis by simp
  next
    case (Some g')
    with Cons.prems have "p = pre" "g' = g" by simp_all
    with match_at_Some [OF Some] show ?thesis by simp
  qed
qed

lemma regex_exec_None:
  "regex_exec pre s = None \<Longrightarrow> s = u @ v \<Longrightarrow> match_at v = None"
proof (induction s arbitrary: pre u)
  case Nil
  then show ?case by (simp add: match_at_def)
next
  case (Cons c cs)
  from Cons.prems(1) have m: "match_at (c # cs) = None" and r: "regex_exec (pre @ [c]) cs = None"
    by (auto split: option.splits)
  show ?case
  proof (cases u)
    case Nil
    with Cons.prems(2) m show ?thesis by simp
  next
    case (Cons a u')
    with Cons.prems(2) have "cs = u' @ v" by simp
    from Cons.IH [OF r this] show ?thesis .
  qed
qed

lemma normalize_match:
  assumes "t \<noteq> []" and "\<not> isLineTerminator (last t)"
  shows "normalizeResponseName (t @ js ''SuccessResponse'') = t @ js ''Response''"
proof (cases "regex_exec [] (t @ js ''SuccessResponse'')")
  case None
  have "t @ js ''SuccessResponse'' = butlast t @ ([last t] @ js ''SuccessResponse'')"
    using assms(1) by simp
  from regex_exec_None [OF None this]
  have "match_at ([last t] @ js ''SuccessResponse'') = None" .
  from match_at_None [OF this, of "[last t]"] assms(2) show ?thesis by simp
next
  case (Some pg)
  obtain p g where pg: "pg = (p, g)" by (cases pg)
  from regex_exec_Some [of "[]" _ p g] Some pg
  have "t @ js ''SuccessResponse'' = (p @ g) @ js ''SuccessResponse''" by simp
  then have "t = p @ g" by (simp only: append_same_eq)
  with Some pg show ?thesis by (simp add: normalizeResponseName_def)
qed

lemma normalize_nomatch:
  assumes "\<And>t. t \<noteq> [] \<Longrightarrow> \<not> isLineTerminator (last t) \<Longrightarrow> nm \<noteq> t @ js ''SuccessResponse''"
  shows "normalizeResponseName nm = nm"
proof (cases "regex_exec [] nm")
  case None
  then show ?thesis by (simp add: normalizeResponseName_def)
next
  case (Some pg)
  obtain p g where pg: "pg = (p, g)" by (cases pg)
  from regex_exec_Some [of "[]" nm p g] Some pg
  have "g \<noteq> []" "\<not> isLineTerminator (last g)" "nm = (p @ g) @ js ''SuccessResponse''"
    by simp_all
  with assms [of "p @ g"] show ?thesis by simp
qed

lemma js_append: "js (a @ b) = js a @ js b"
  by (simp add: js_def)

lemma normalize_twice:
  assumes "\<not> suffix (js ''SuccessSuccessResponse'') nm"
  shows "normalizeResponseName (normalizeResponseName nm) = normalizeResponseName nm"
proof (cases "\<exists>t. t \<noteq> [] \<and> \<not> isLineTerminator (last t) \<and> nm = t @ js ''SuccessResponse''")
  case False
  then have "normalizeResponseName nm = nm"
    by (intro normalize_nomatch) blast
  then show ?thesis by simp
next
  case True
  then obtain t where t: "t \<noteq> []" "\<not> isLineTerminator (last t)" "nm = t @ js ''SuccessResponse''"
    by blast
  then have n: "normalizeResponseName nm = t @ js ''Response''"
    by (simp add: normalize_match)
  have "normalizeResponseName (t @ js ''Response'') = t @ js ''Response''"
  proof (rule normalize_nomatch)
    fix u assume "u \<noteq> []" "\<not> isLineTerminator (last u)"
    show "t @ js ''Response'' \<noteq> u @ js ''SuccessResponse''"
    proof
      assume "t @ js ''Response'' = u @ js ''SuccessResponse''"
      then have "t @ js ''Response'' = (u @ js ''Success'') @ js ''Response''"
        by (simp add: js_def)
      then have "t = u @ js ''Success''" by (simp only: append_same_eq)
      with t(3) have "nm = u @ js ''SuccessSuccessResponse''" by (simp add: js_def)
      with assms show False by (simp add: suffix_def)
    qed
  qed
  with n show ?thesis by simp
qed

text \<open>
  C10. The normalization rewrites only names with a non-empty stem before the suffix:
  the nm \<open>SuccessResponse\<close> itself is returned unchanged, and every nm that
  the normalization changes is a non-empty stem followed by \<open>SuccessResponse\<close>,
  which becomes the stem followed by \<open>Response\<close>.
\<close>

theorem normalize_needs_stem:
  "normalizeResponseName (js ''SuccessResponse'') = js ''SuccessResponse'' \<and>
   (normalizeResponseName nm \<noteq> nm \<longrightarrow>
      (\<exists>stem. stem \<noteq> [] \<and> nm = stem @ js ''SuccessResponse'' \<and>
         normalizeResponseName nm = stem @ js ''Response''))"
proof (intro conjI impI)
  show "normalizeResponseName (js ''SuccessResponse'') = js ''SuccessResponse''"
    by (simp add: normalizeResponseName_def match_at_def js_def isLineTerminator_def)
next
  assume changed: "normalizeResponseName nm \<noteq> nm"
  have "\<exists>t. t \<noteq> [] \<and> \<not> isLineTerminator (last t) \<and> nm = t @ js ''SuccessResponse''"
  proof (rule ccontr)
    assume "\<not> ?thesis"
    then have "normalizeResponseName nm = nm"
      by (intro normalize_nomatch) blast
    with changed show False by simp
  qed
  then obtain t where "t \<noteq> []" "\<not> isLineTerminator (last t)" "nm = t @ js ''SuccessResponse''"
    by blast
  then show "\<exists>stem. stem \<noteq> [] \<and> nm = stem @ js ''SuccessResponse'' \<and>
      normalizeResponseName nm = stem @ js ''Response''"
    using normalize_match [of t] by auto
qed

theorem normalize_needs_stem_witness:
  "normalizeResponseName (js ''PlaceOrderSuccessResponse'') \<noteq> js ''PlaceOrderSuccessResponse'' \<and>
   (\<exists>stem. stem \<noteq> [] \<and> js ''PlaceOrderSuccessResponse'' = stem @ js ''SuccessResponse'' \<and>
      normalizeResponseName (js ''PlaceOrderSuccessResponse'') = stem @ js ''Response'')"
proof -
  have changed: "normalizeResponseName (js ''PlaceOrderSuccessResponse'') \<noteq> js ''PlaceOrderSuccessResponse''"
    by (simp add: normalizeResponseName_def match_at_def js_def isLineTerminator_def)
  with normalize_needs_stem [of "js ''PlaceOrderSuccessResponse''"] show ?thesis
    by blast
qed

text \<open>
  C3, as stated: normalizing the output of the normalization returns it unchanged. The
  replacement is applied once, so a nm whose stem itself ends in \<open>Success\<close> is
  rewritten a second time: \<open>FooSuccessSuccessResponse\<close> becomes
  \<open>FooSuccessResponse\<close>, which becomes \<open>FooResponse\<close>.
\<close>

theorem normalize_not_idempotent:
  "normalizeResponseName (normalizeResponseName (js ''FooSuccessSuccessResponse''))
     \<noteq> normalizeResponseName (js ''FooSuccessSuccessResponse'')"
  by (simp add: normalizeResponseName_def match_at_def js_def isLineTerminator_def)

text \<open>
  C3, amended. A nm that does not end in \<open>SuccessResponse\<close> (such as
  \<open>PlaceOrderResponse\<close>) is left unchanged, and normalizing twice is the same as
  normalizing once for every nm that does not end in \<open>SuccessSuccessResponse\<close>.
\<close>

theorem normalize_idempotent_amended:
  "(\<not> suffix (js ''SuccessResponse'') nm \<longrightarrow> normalizeResponseName nm = nm) \<and>
   (\<not> suffix (js ''SuccessSuccessResponse'') nm \<longrightarrow>
      normalizeResponseName (normalizeResponseName nm) = normalizeResponseName nm)"
proof (intro conjI impI)
  assume "\<not> suffix (js ''SuccessResponse'') nm"
  then show "normalizeResponseName nm = nm"
    by (intro normalize_nomatch) (auto simp: suffix_def)
next
  assume "\<not> suffix (js ''SuccessSuccessResponse'') nm"
  then show "normalizeResponseName (normalizeResponseName nm) = normalizeResponseName nm"
    by (rule normalize_twice)
qed

theorem normalize_idempotent_amended_witness:
  "\<not> suffix (js ''SuccessResponse'') (js ''PlaceOrderResponse'') \<and>
   normalizeResponseName (js ''PlaceOrderResponse'') = js ''PlaceOrderResponse'' \<and>
   \<not> suffix (js ''SuccessSuccessResponse'') (js ''PlaceOrderSuccessResponse'') \<and>
   normalizeResponseName (normalizeResponseName (js ''PlaceOrderSuccessResponse''))
     = normalizeResponseName (js ''PlaceOrderSuccessResponse'')"
  using normalize_idempotent_amended [of "js ''PlaceOrderResponse''"]
    normalize_idempotent_amended [of "js ''PlaceOrderSuccessResponse''"]
  by (simp add: js_def suffix_to_prefix)

section \<open>Properties of the OpenAPI Assembler\<close>

lemma openapi_spec_versions: "openapi_spec_update_ts = openapi_spec"
  by (intro ext) (simp only: openapi_spec_update_ts_def openapi_spec_def)

lemma convert_methods_versions:
  "convert_methods_update_ts convert endpoint ms result = convert_methods convert endpoint ms result"
  by (induction ms arbitrary: result)
     (auto simp: openapi_spec_versions split: sum.splits)

lemma convert_endpoints_versions:
  "convert_endpoints_update_ts convert schemas es result = convert_endpoints convert schemas es result"
  by (induction es arbitrary: result)
     (auto simp: convert_methods_versions split: sum.splits)

lemma assembler_versions:
  "jsonSchemasToOpenAPIs_update_ts convert schemas = jsonSchemasToOpenAPIs convert schemas"
  by (simp add: jsonSchemasToOpenAPIs_update_ts_def jsonSchemasToOpenAPIs_def
      convert_endpoints_versions)


lemma js_Nil [simp]: "js [] = []" by (simp add: js_def)








text \<open>
  C9. The assembly functions of the two source versions (\<open>src/update.ts\<close> and
  \<open>src/unnamed/part_000\<close>) are extensionally equal: for every converter and every
  schema map they fail alike or return the same map of documents.
\<close>

theorem assembler_versions_equal:
  "jsonSchemasToOpenAPIs_update_ts convert schemas = jsonSchemasToOpenAPIs convert schemas"
  by (rule assembler_versions)



section \<open>Properties of the Schema Resolver\<close>

lemma findByName_Some:
  assumes "findByName docNodes n = Some node"
  shows "name node = n \<and> n \<in> name ` set docNodes"
proof -
  from assms have "node \<in> set docNodes" and "name node = n"
    by (auto simp: findByName_def find_Some_iff)
  then show ?thesis by blast
qed

lemma findByName_None: "findByName docNodes n = None \<longleftrightarrow> n \<notin> name ` set docNodes"
  unfolding findByName_def find_None_iff by blast

lemma findRequestNode_Some:
  assumes "findRequestNode docNodes fU eU = Some node"
  shows "name node \<in> name ` set docNodes \<and>
         name node = (if fU @ js ''Request'' \<in> name ` set docNodes then fU @ js ''Request''
                      else fU @ eU @ js ''Request'')"
proof (cases "findByName docNodes (fU @ js ''Request'')")
  case None
  with assms have "findByName docNodes (fU @ eU @ js ''Request'') = Some node"
    by (simp add: findRequestNode_def)
  from findByName_Some [OF this] None [unfolded findByName_None] show ?thesis
    by simp
next
  case (Some n)
  with assms have "n = node" by (simp add: findRequestNode_def)
  with findByName_Some [OF Some] show ?thesis by simp
qed




subsection \<open>\<open>getAllSchemas\<close> of \<open>src/update.ts\<close>\<close>






subsection \<open>The request name\<close>



subsection \<open>The response name\<close>

text \<open>The response name, when neither name by convention is in the symbol table.\<close>

lemma findByName_Some_iff:
  "n \<in> name ` set docNodes \<Longrightarrow> \<exists>node. findByName docNodes n = Some node \<and> name node = n"
  using findByName_None [of docNodes n] findByName_Some [of docNodes n]
  by (cases "findByName docNodes n") auto

lemma by_return_type:
  assumes "find (\<lambda>node. name node = op \<and> isFunction node) docNodes = Some functionNode"
    and "findRequestNode docNodes (replaceFirstCharToUpperCase toUpperCase op)
           (replaceFirstCharToUpperCase toUpperCase e) = Some requestNode"
    and "replaceFirstCharToUpperCase toUpperCase op @ js ''Response'' \<notin> name ` set docNodes"
    and "replaceFirstCharToUpperCase toUpperCase op
           @ replaceFirstCharToUpperCase toUpperCase e @ js ''Response'' \<notin> name ` set docNodes"
  shows "extractFunctionSchema toUpperCase docNodes filePath op e =
     (case returnType functionNode of
        Some (TypeRef typeName typeParams) \<Rightarrow>
          if typeName \<noteq> js ''Promise'' then Inl (NotPromise op filePath)
          else
            (case typeParams of
               Some (TypeRef responseTypeName ps # others) \<Rightarrow>
                 if responseTypeName \<noteq> [] \<and> responseTypeName \<in> name ` set docNodes
                 then Inr \<lparr>request = name requestNode,
                           response = normalizeResponseName responseTypeName,
                           example = findExample functionNode\<rparr>
                 else Inl (ResponseTypeNotFound filePath)
             | _ \<Rightarrow> Inl (CannotExtractResponseType filePath))
      | _ \<Rightarrow> Inl (NotPromise op filePath))"
proof -
  let ?fU = "replaceFirstCharToUpperCase toUpperCase op"
  let ?eU = "replaceFirstCharToUpperCase toUpperCase e"
  from assms(3,4) have none: "findByName docNodes (?fU @ js ''Response'') = None"
      "findByName docNodes (?fU @ ?eU @ js ''Response'') = None"
    by (simp_all add: findByName_None)
  have byname: "\<And>T. (case findByName docNodes T of
                    None \<Rightarrow> Inl (ResponseTypeNotFound filePath)
                  | Some responseNode \<Rightarrow> Inr responseNode) =
         (if T \<in> name ` set docNodes then Inr (the (findByName docNodes T))
          else Inl (ResponseTypeNotFound filePath))"
  proof -
    fix T
    show "(case findByName docNodes T of
                    None \<Rightarrow> Inl (ResponseTypeNotFound filePath)
                  | Some responseNode \<Rightarrow> Inr responseNode) =
         (if T \<in> name ` set docNodes then Inr (the (findByName docNodes T))
          else Inl (ResponseTypeNotFound filePath))"
    proof (cases "findByName docNodes T")
      case None
      then show ?thesis using findByName_None [of docNodes T] by simp
    next
      case (Some n)
      then show ?thesis using findByName_Some [OF Some] by simp
    qed
  qed
  have nm: "\<And>T. T \<in> name ` set docNodes \<Longrightarrow> name (the (findByName docNodes T)) = T"
    using findByName_Some_iff by fastforce
  show ?thesis
    using assms(1,2) none
    by (auto simp: extractFunctionSchema_def findResponseNode_def Let_def byname nm
        split: option.splits TsTypeDef.splits list.splits)
qed


lemma findResponseNode_Inr:
  assumes "findResponseNode docNodes filePath op functionNode fU eU = Inr node"
  shows "name node \<in> name ` set docNodes"
proof -
  from assms obtain T where "findByName docNodes T = Some node"
    by (auto simp: findResponseNode_def
        split: option.splits TsTypeDef.splits list.splits if_splits)
  from findByName_Some [OF this] show ?thesis by simp
qed

lemma findResponseNode_Inl:
  assumes "findResponseNode docNodes filePath op functionNode fU eU = Inl err"
  shows "err \<in> {NotPromise op filePath, CannotExtractResponseType filePath,
                 ResponseTypeNotFound filePath}"
  using assms
  by (auto simp: findResponseNode_def
      split: option.splits TsTypeDef.splits list.splits if_splits)

lemma extract_Inr:
  assumes "extractFunctionSchema toUpperCase docNodes filePath op e = Inr r"
  shows "request r \<in> name ` set docNodes \<and>
         (\<exists>n \<in> name ` set docNodes. response r = normalizeResponseName n)"
proof -
  let ?fU = "replaceFirstCharToUpperCase toUpperCase op"
  let ?eU = "replaceFirstCharToUpperCase toUpperCase e"
  from assms obtain functionNode requestNode responseNode where
    rq: "findRequestNode docNodes ?fU ?eU = Some requestNode"
    and rs: "findResponseNode docNodes filePath op functionNode ?fU ?eU = Inr responseNode"
    and r: "request r = name requestNode" "response r = normalizeResponseName (name responseNode)"
    by (auto simp: extractFunctionSchema_def Let_def split: option.splits sum.splits)
  from findRequestNode_Some [OF rq] have "name requestNode \<in> name ` set docNodes" by blast
  moreover from findResponseNode_Inr [OF rs] have "name responseNode \<in> name ` set docNodes" .
  ultimately show ?thesis unfolding r by blast
qed

lemma extract_Inl:
  assumes "extractFunctionSchema toUpperCase docNodes filePath op e = Inl err"
  shows "err \<in> {FunctionNotFound op filePath, RequestTypeNotFound filePath,
                 NotPromise op filePath, CannotExtractResponseType filePath,
                 ResponseTypeNotFound filePath}"
proof (cases "find (\<lambda>node. name node = op \<and> isFunction node) docNodes")
  case None
  with assms show ?thesis by (simp add: extractFunctionSchema_def)
next
  case (Some functionNode)
  let ?fU = "replaceFirstCharToUpperCase toUpperCase op"
  let ?eU = "replaceFirstCharToUpperCase toUpperCase e"
  show ?thesis
  proof (cases "findRequestNode docNodes ?fU ?eU")
    case None
    with Some assms show ?thesis by (simp add: extractFunctionSchema_def Let_def)
  next
    case (Some requestNode)
    with \<open>find _ docNodes = Some functionNode\<close> assms
    have "findResponseNode docNodes filePath op functionNode ?fU ?eU = Inl err"
      by (simp add: extractFunctionSchema_def Let_def split: sum.splits)
    from findResponseNode_Inl [OF this] show ?thesis by blast
  qed
qed

text \<open>
  C5, amended. When the function and its request type are found and neither
  \<open>{Capitalized(op)}Response\<close> nor \<open>{Capitalized(op)}{Capitalized(e)}Response\<close> is in the
  symbol table, the result is decided by the declared return type:
  \<^item> not a reference to \<open>Promise\<close>: the error \<open>does not return Promise\<close>;
  \<^item> \<open>Promise\<close> without type parameters, or with a first type parameter that is not a
    type reference: the error \<open>Cannot extract response type from Promise\<close>;
  \<^item> \<open>Promise\<close> whose first type parameter is a reference to a type \<open>T\<close> (further
    parameters are not looked at): the request name and the normalized \<open>T\<close> if \<open>T\<close> is a
    non-empty name of the symbol table, the error \<open>Response type name not found\<close> if not.
  A result is never partial: a successful result names a request and a response that
  both come from the symbol table, and a failure is one of the five errors.
\<close>

theorem response_resolution_amended:
  "(find (\<lambda>node. name node = op \<and> isFunction node) docNodes = Some functionNode \<and>
    findRequestNode docNodes (replaceFirstCharToUpperCase toUpperCase op)
      (replaceFirstCharToUpperCase toUpperCase e) = Some requestNode \<and>
    replaceFirstCharToUpperCase toUpperCase op @ js ''Response'' \<notin> name ` set docNodes \<and>
    replaceFirstCharToUpperCase toUpperCase op
      @ replaceFirstCharToUpperCase toUpperCase e @ js ''Response'' \<notin> name ` set docNodes \<longrightarrow>
    extractFunctionSchema toUpperCase docNodes filePath op e =
     (case returnType functionNode of
        Some (TypeRef typeName typeParams) \<Rightarrow>
          if typeName \<noteq> js ''Promise'' then Inl (NotPromise op filePath)
          else
            (case typeParams of
               Some (TypeRef responseTypeName ps # others) \<Rightarrow>
                 if responseTypeName \<noteq> [] \<and> responseTypeName \<in> name ` set docNodes
                 then Inr \<lparr>request = name requestNode,
                           response = normalizeResponseName responseTypeName,
                           example = findExample functionNode\<rparr>
                 else Inl (ResponseTypeNotFound filePath)
             | _ \<Rightarrow> Inl (CannotExtractResponseType filePath))
      | _ \<Rightarrow> Inl (NotPromise op filePath))) \<and>
   (extractFunctionSchema toUpperCase docNodes filePath op e = Inr r \<longrightarrow>
      request r \<in> name ` set docNodes \<and>
      (\<exists>n \<in> name ` set docNodes. response r = normalizeResponseName n)) \<and>
   (extractFunctionSchema toUpperCase docNodes filePath op e = Inl err \<longrightarrow>
      err \<in> {FunctionNotFound op filePath, RequestTypeNotFound filePath,
              NotPromise op filePath, CannotExtractResponseType filePath,
              ResponseTypeNotFound filePath})"
  using by_return_type [of op docNodes functionNode toUpperCase e requestNode filePath]
    extract_Inr [of toUpperCase docNodes filePath op e r]
    extract_Inl [of toUpperCase docNodes filePath op e err]
  by blast

text \<open>
  C5, as stated, has the return type wrap exactly one named type. The code reads only
  the first type parameter: a return type \<open>Promise<MetaResult, Extra>\<close> resolves to
  \<open>MetaResult\<close>.
\<close>

theorem promise_two_parameters_accepted:
  "extractFunctionSchema asciiUpper
     [\<lparr>name = js ''meta'',
       def = FunctionDef (Some (TypeRef (js ''Promise'')
               (Some [TypeRef (js ''MetaResult'') None, TypeRef (js ''Extra'') None]))),
       jsDoc_tags = None\<rparr>,
      \<lparr>name = js ''MetaRequest'', def = OtherDef, jsDoc_tags = None\<rparr>,
      \<lparr>name = js ''MetaResult'', def = OtherDef, jsDoc_tags = None\<rparr>]
     (js ''/api/info/meta.ts'') (js ''meta'') (js ''info'')
   = Inr \<lparr>request = js ''MetaRequest'', response = js ''MetaResult'', example = None\<rparr>"
  by (simp add: extractFunctionSchema_def findRequestNode_def findResponseNode_def findByName_def
      findExample_def replaceFirstCharToUpperCase_def charAt0_def asciiUpper_def
      normalizeResponseName_def match_at_def isLineTerminator_def js_def)

theorem response_resolution_amended_witness:
  "extractFunctionSchema asciiUpper
     [\<lparr>name = js ''meta'',
       def = FunctionDef (Some (TypeRef (js ''Promise'') (Some [TypeRef (js ''MetaResult'') None]))),
       jsDoc_tags = None\<rparr>,
      \<lparr>name = js ''MetaRequest'', def = OtherDef, jsDoc_tags = None\<rparr>,
      \<lparr>name = js ''MetaResult'', def = OtherDef, jsDoc_tags = None\<rparr>]
     (js ''/api/info/meta.ts'') (js ''meta'') (js ''info'')
   = Inr \<lparr>request = js ''MetaRequest'', response = normalizeResponseName (js ''MetaResult''),
          example = None\<rparr> \<and>
   extractFunctionSchema asciiUpper
     [\<lparr>name = js ''meta'', def = FunctionDef (Some OtherTsType), jsDoc_tags = None\<rparr>,
      \<lparr>name = js ''MetaRequest'', def = OtherDef, jsDoc_tags = None\<rparr>]
     (js ''/api/info/meta.ts'') (js ''meta'') (js ''info'')
   = Inl (NotPromise (js ''meta'') (js ''/api/info/meta.ts''))"
proof -
  let ?fn = "\<lparr>name = js ''meta'',
       def = FunctionDef (Some (TypeRef (js ''Promise'') (Some [TypeRef (js ''MetaResult'') None]))),
       jsDoc_tags = None\<rparr>"
  let ?rq = "\<lparr>name = js ''MetaRequest'', def = OtherDef, jsDoc_tags = None\<rparr>"
  let ?rs = "\<lparr>name = js ''MetaResult'', def = OtherDef, jsDoc_tags = None\<rparr>"
  let ?fn2 = "\<lparr>name = js ''meta'', def = FunctionDef (Some OtherTsType), jsDoc_tags = None\<rparr>"
  let ?fU = "replaceFirstCharToUpperCase asciiUpper (js ''meta'')"
  let ?eU = "replaceFirstCharToUpperCase asciiUpper (js ''info'')"
  have fn: "find (\<lambda>node. name node = js ''meta'' \<and> isFunction node) [?fn, ?rq, ?rs] = Some ?fn"
    "find (\<lambda>node. name node = js ''meta'' \<and> isFunction node) [?fn2, ?rq] = Some ?fn2"
    by simp_all
  have rq: "findRequestNode [?fn, ?rq, ?rs] ?fU ?eU = Some ?rq"
    "findRequestNode [?fn2, ?rq] ?fU ?eU = Some ?rq"
    by (simp_all add: findRequestNode_def findByName_def replaceFirstCharToUpperCase_def
        charAt0_def asciiUpper_def js_def)
  have absent: "?fU @ js ''Response'' \<notin> name ` set [?fn, ?rq, ?rs]"
    "?fU @ ?eU @ js ''Response'' \<notin> name ` set [?fn, ?rq, ?rs]"
    "?fU @ js ''Response'' \<notin> name ` set [?fn2, ?rq]"
    "?fU @ ?eU @ js ''Response'' \<notin> name ` set [?fn2, ?rq]"
    by (simp_all add: replaceFirstCharToUpperCase_def charAt0_def asciiUpper_def js_def)
  from response_resolution_amended [of "js ''meta''" "[?fn, ?rq, ?rs]" ?fn asciiUpper "js ''info''" ?rq
        "js ''/api/info/meta.ts''"] fn(1) rq(1) absent(1,2)
  have "extractFunctionSchema asciiUpper [?fn, ?rq, ?rs]
     (js ''/api/info/meta.ts'') (js ''meta'') (js ''info'') =
     (case returnType ?fn of
        Some (TypeRef typeName typeParams) \<Rightarrow>
          if typeName \<noteq> js ''Promise'' then Inl (NotPromise (js ''meta'') (js ''/api/info/meta.ts''))
          else
            (case typeParams of
               Some (TypeRef responseTypeName ps # others) \<Rightarrow>
                 if responseTypeName \<noteq> [] \<and> responseTypeName \<in> name ` set [?fn, ?rq, ?rs]
                 then Inr \<lparr>request = name ?rq,
                           response = normalizeResponseName responseTypeName,
                           example = findExample ?fn\<rparr>
                 else Inl (ResponseTypeNotFound (js ''/api/info/meta.ts''))
             | _ \<Rightarrow> Inl (CannotExtractResponseType (js ''/api/info/meta.ts'')))
      | _ \<Rightarrow> Inl (NotPromise (js ''meta'') (js ''/api/info/meta.ts'')))"
    by blast
  then have 1: "extractFunctionSchema asciiUpper [?fn, ?rq, ?rs]
     (js ''/api/info/meta.ts'') (js ''meta'') (js ''info'')
   = Inr \<lparr>request = js ''MetaRequest'', response = normalizeResponseName (js ''MetaResult''),
          example = None\<rparr>"
    by (simp add: findExample_def js_def)
  from response_resolution_amended [of "js ''meta''" "[?fn2, ?rq]" ?fn2 asciiUpper "js ''info''" ?rq
        "js ''/api/info/meta.ts''"] fn(2) rq(2) absent(3,4)
  have "extractFunctionSchema asciiUpper [?fn2, ?rq]
     (js ''/api/info/meta.ts'') (js ''meta'') (js ''info'') =
     (case returnType ?fn2 of
        Some (TypeRef typeName typeParams) \<Rightarrow>
          if typeName \<noteq> js ''Promise'' then Inl (NotPromise (js ''meta'') (js ''/api/info/meta.ts''))
          else
            (case typeParams of
               Some (TypeRef responseTypeName ps # others) \<Rightarrow>
                 if responseTypeName \<noteq> [] \<and> responseTypeName \<in> name ` set [?fn2, ?rq]
                 then Inr \<lparr>request = name ?rq,
                           response = normalizeResponseName responseTypeName,
                           example = findExample ?fn2\<rparr>
                 else Inl (ResponseTypeNotFound (js ''/api/info/meta.ts''))
             | _ \<Rightarrow> Inl (CannotExtractResponseType (js ''/api/info/meta.ts'')))
      | _ \<Rightarrow> Inl (NotPromise (js ''meta'') (js ''/api/info/meta.ts'')))"
    by blast
  then have 2: "extractFunctionSchema asciiUpper [?fn2, ?rq]
     (js ''/api/info/meta.ts'') (js ''meta'') (js ''info'')
   = Inl (NotPromise (js ''meta'') (js ''/api/info/meta.ts''))"
    by simp
  from 1 2 show ?thesis by (rule conjI)
qed

section \<open>Properties of the Table-of-Contents Updater\<close>

subsection \<open>\<open>indexOf\<close>\<close>

lemma occurs_at_Nil: "occurs_at needle [] i \<longleftrightarrow> i = 0 \<and> needle = []"
  by (auto simp: occurs_at_def)

lemma occurs_at_Cons_0: "occurs_at needle (c # cs) 0 \<longleftrightarrow> prefix needle (c # cs)"
  by (simp add: occurs_at_def)

lemma occurs_at_Cons_Suc: "occurs_at needle (c # cs) (Suc i) \<longleftrightarrow> occurs_at needle cs i"
  by (simp add: occurs_at_def)

lemma first_at_Cons:
  "first_at needle (c # cs) i \<longleftrightarrow>
     (if prefix needle (c # cs) then i = 0 else \<exists>j. i = Suc j \<and> first_at needle cs j)"
proof (cases "prefix needle (c # cs)")
  case True
  then have z: "occurs_at needle (c # cs) 0" by (simp add: occurs_at_Cons_0)
  show ?thesis
  proof (cases i)
    case 0
    with True show ?thesis by (simp add: first_at_def occurs_at_Cons_0)
  next
    case (Suc j)
    with z True show ?thesis by (auto simp: first_at_def)
  qed
next
  case False
  then have z: "\<not> occurs_at needle (c # cs) 0" by (simp add: occurs_at_Cons_0)
  show ?thesis
  proof (cases i)
    case 0
    with False show ?thesis by (simp add: first_at_def occurs_at_Cons_0)
  next
    case (Suc j)
    have "(\<forall>k<Suc j. \<not> occurs_at needle (c # cs) k) \<longleftrightarrow> (\<forall>k<j. \<not> occurs_at needle cs k)"
    proof
      assume a: "\<forall>k<Suc j. \<not> occurs_at needle (c # cs) k"
      show "\<forall>k<j. \<not> occurs_at needle cs k"
      proof (intro allI impI)
        fix k assume "k < j"
        then have "\<not> occurs_at needle (c # cs) (Suc k)" using a by simp
        then show "\<not> occurs_at needle cs k" by (simp add: occurs_at_Cons_Suc)
      qed
    next
      assume a: "\<forall>k<j. \<not> occurs_at needle cs k"
      show "\<forall>k<Suc j. \<not> occurs_at needle (c # cs) k"
      proof (intro allI impI)
        fix k assume k: "k < Suc j"
        show "\<not> occurs_at needle (c # cs) k"
        proof (cases k)
          case 0
          with z show ?thesis by simp
        next
          case (Suc k')
          with k a show ?thesis by (simp add: occurs_at_Cons_Suc)
        qed
      qed
    qed
    with Suc False show ?thesis by (simp add: first_at_def occurs_at_Cons_Suc)
  qed
qed

lemma index_from_Some_iff:
  "index_from needle s k = Some j \<longleftrightarrow> (\<exists>i. j = k + i \<and> first_at needle s i)"
proof (induction s arbitrary: k)
  case Nil
  show ?case by (auto simp: first_at_def occurs_at_Nil)
next
  case (Cons c cs)
  show ?case
  proof (cases "prefix needle (c # cs)")
    case True
    then show ?thesis by (auto simp: first_at_Cons)
  next
    case False
    then show ?thesis by (auto simp: first_at_Cons Cons.IH)
  qed
qed

lemma index_from_None_iff:
  "index_from needle s k = None \<longleftrightarrow> \<not> occurs needle s"
proof (induction s arbitrary: k)
  case Nil
  show ?case by (auto simp: occurs_def occurs_at_Nil)
next
  case (Cons c cs)
  have "occurs needle (c # cs) \<longleftrightarrow> prefix needle (c # cs) \<or> occurs needle cs"
  proof
    assume "occurs needle (c # cs)"
    then obtain i where i: "occurs_at needle (c # cs) i" by (auto simp: occurs_def)
    show "prefix needle (c # cs) \<or> occurs needle cs"
    proof (cases i)
      case 0
      with i show ?thesis by (simp add: occurs_at_Cons_0)
    next
      case (Suc j)
      with i have "occurs_at needle cs j" by (simp add: occurs_at_Cons_Suc)
      then show ?thesis by (auto simp: occurs_def)
    qed
  next
    assume "prefix needle (c # cs) \<or> occurs needle cs"
    then show "occurs needle (c # cs)"
    proof
      assume "prefix needle (c # cs)"
      then have "occurs_at needle (c # cs) 0" by (simp add: occurs_at_Cons_0)
      then show ?thesis unfolding occurs_def by blast
    next
      assume "occurs needle cs"
      then obtain j where "occurs_at needle cs j" by (auto simp: occurs_def)
      then have "occurs_at needle (c # cs) (Suc j)" by (simp add: occurs_at_Cons_Suc)
      then show ?thesis unfolding occurs_def by blast
    qed
  qed
  then show ?case by (simp add: Cons.IH)
qed

lemma occurs_at_drop:
  "p \<le> length s \<Longrightarrow> occurs_at needle (drop p s) i \<longleftrightarrow> occurs_at needle s (p + i)"
  by (auto simp: occurs_at_def add.commute)

lemma indexOf_Some_iff:
  assumes "p \<le> length s"
  shows "indexOf s needle p = Some j \<longleftrightarrow> p \<le> j \<and> first_at needle (drop p s) (j - p)"
proof -
  have "(\<exists>i. j = p + i \<and> first_at needle (drop p s) i)
      \<longleftrightarrow> p \<le> j \<and> first_at needle (drop p s) (j - p)"
    by (metis le_add1 add_diff_cancel_left' le_add_diff_inverse)
  with assms show ?thesis
    by (simp add: indexOf_def index_from_Some_iff min_def)
qed

lemma indexOf_None_iff:
  "indexOf s needle p = None \<longleftrightarrow> \<not> occurs needle (drop p s)"
  by (simp add: indexOf_def index_from_None_iff)

lemma indexOf_0_Some_iff: "indexOf s needle 0 = Some j \<longleftrightarrow> first_at needle s j"
  by (simp add: indexOf_Some_iff)

subsection \<open>\<open>trimEnd\<close> and the generated section\<close>

lemma trimEnd_append_keep:
  assumes "\<exists>c\<in>set ys. \<not> trimmable c"
  shows "trimEnd (xs @ ys) = xs @ trimEnd ys"
proof -
  from assms obtain c where "c \<in> set (rev ys)" "\<not> trimmable c" by auto
  then have "dropWhile trimmable (rev ys @ rev xs) = dropWhile trimmable (rev ys) @ rev xs"
    by (rule dropWhile_append1)
  then show ?thesis by (simp add: trimEnd_def)
qed

lemma trimEnd_append_drop:
  assumes "\<forall>c\<in>set ws. trimmable c"
  shows "trimEnd (xs @ ws) = trimEnd xs"
proof -
  from assms have "\<And>c. c \<in> set (rev ws) \<Longrightarrow> trimmable c" by simp
  then have "dropWhile trimmable (rev ws @ rev xs) = dropWhile trimmable (rev xs)"
    by (rule dropWhile_append2)
  then show ?thesis by (simp add: trimEnd_def)
qed

lemma trimEnd_id:
  assumes "xs = [] \<or> \<not> trimmable (last xs)"
  shows "trimEnd xs = xs"
proof (cases xs rule: rev_cases)
  case Nil
  then show ?thesis by (simp add: trimEnd_def)
next
  case (snoc ys y)
  with assms show ?thesis by (simp add: trimEnd_def)
qed

lemma trimEnd_last: "trimEnd xs = [] \<or> \<not> trimmable (last (trimEnd xs))"
proof (cases "dropWhile trimmable (rev xs)")
  case Nil
  then show ?thesis by (simp add: trimEnd_def)
next
  case (Cons y ys)
  then have "\<not> trimmable y" by (metis dropWhile_eq_Cons_conv)
  with Cons show ?thesis by (simp add: trimEnd_def)
qed

lemma not_trimmable_hash: "\<not> trimmable 0x23"
  by (simp add: trimmable_def isWhiteSpace_def isLineTerminator_def)

lemma section_loop_chunks:
  "section_loop up specs es lines = lines @ concat (map (section_chunk up specs) es)"
proof (induction es arbitrary: lines)
  case Nil
  show ?case by simp
next
  case (Cons e es)
  show ?case
  proof (cases "sort (map fst (at specs e)) = []")
    case True
    then show ?thesis by (simp add: Cons.IH section_chunk_def)
  next
    case False
    then show ?thesis by (simp add: Cons.IH section_chunk_def Let_def)
  qed
qed

lemma join_Cons: "join sep (x # xs) = x @ concat (map ((@) sep) xs)"
  by (induction xs arbitrary: x) simp_all

lemma api_block:
  "join newline (api_section_lines up specs) =
     apiHeader @ newline @ section_text up specs @ newline"
proof -
  have "api_section_lines up specs =
      js ''## API'' # [] #
        concat (map (section_chunk up specs) (sort_key endpoint_str (object_keys specs))) @ [Nil]"
    unfolding api_section_lines_def section_loop_chunks by simp
  then show ?thesis by (simp add: join_Cons apiHeader_def section_text_def)
qed


lemma hash_in_nextHeader: "0x23 \<in> set nextHeader"
  by (simp add: nextHeader_def js_def)


lemma length_apiHeader: "length apiHeader = 6"
  by (simp add: apiHeader_def js_def)

lemma first_at_length: "first_at needle s i \<Longrightarrow> i + length needle \<le> length s"
  by (auto simp: first_at_def occurs_at_def dest!: prefix_length_le)

lemma suffix_keeps:
  assumes "indexOf s nextHeader p = Some k" and "p \<le> length s"
  shows "prefix nextHeader (drop k s)" and "\<exists>c\<in>set (drop k s). \<not> trimmable c"
proof -
  from assms have "p \<le> k" and "first_at nextHeader (drop p s) (k - p)"
    by (simp_all add: indexOf_Some_iff)
  then show p: "prefix nextHeader (drop k s)"
    by (simp add: first_at_def occurs_at_def)
  then obtain r where "drop k s = nextHeader @ r" by (auto simp: prefix_def)
  with hash_in_nextHeader not_trimmable_hash
  show "\<exists>c\<in>set (drop k s). \<not> trimmable c" by auto
qed

subsection \<open>The matching automaton\<close>

lemma nextHeader_chars: "nextHeader = [0x0A, 0x23, 0x23, 0x20]"
  by (simp add: nextHeader_def newline_def js_def)

lemma scan_append: "scan q (a @ b) = scan (scan q a) b"
  by (simp add: scan_def)

lemma scan_Nil: "scan q [] = q"
  by (simp add: scan_def)

lemma scan_Cons: "scan q (c # cs) = scan (step q c) cs"
  by (simp add: scan_def)

lemma scan_4: "scan 4 s = 4"
  by (induction s) (simp_all add: scan_Nil scan_Cons step.simps)

lemma scan_nextHeader: "scan q nextHeader = 4"
  by (simp add: nextHeader_chars scan_Cons scan_Nil step.simps)

lemma scan_le: "q \<le> 4 \<Longrightarrow> scan q s \<le> 4"
  by (induction s arbitrary: q) (simp_all add: scan_Nil scan_Cons step.simps)

lemma occurs_at_split:
  "occurs_at needle s i \<longleftrightarrow> (\<exists>v. s = take i s @ needle @ v \<and> i \<le> length s)"
proof
  assume "occurs_at needle s i"
  then obtain v where "drop i s = needle @ v" and "i \<le> length s"
    by (auto simp: occurs_at_def prefix_def)
  then have "s = take i s @ needle @ v" by (metis append_take_drop_id)
  with \<open>i \<le> length s\<close> show "\<exists>v. s = take i s @ needle @ v \<and> i \<le> length s" by blast
next
  assume "\<exists>v. s = take i s @ needle @ v \<and> i \<le> length s"
  then obtain v where s: "s = take i s @ needle @ v" and i: "i \<le> length s" by blast
  have "drop i s = drop i (take i s @ needle @ v)" using s by simp
  also have "\<dots> = needle @ v" using i by simp
  finally show "occurs_at needle s i" using i by (simp add: occurs_at_def)
qed

lemma scan_complete:
  assumes "occurs nextHeader s"
  shows "scan q s = 4"
proof -
  from assms obtain i v where "s = take i s @ nextHeader @ v"
    by (auto simp: occurs_def occurs_at_split)
  then have "scan q s = scan q (take i s @ nextHeader @ v)" by simp
  also have "\<dots> = 4" by (simp only: scan_append scan_nextHeader scan_4)
  finally show ?thesis .
qed

lemma occurs_append_left: "occurs needle s \<Longrightarrow> occurs needle (u @ s)"
proof -
  assume "occurs needle s"
  then obtain i where "i \<le> length s" "prefix needle (drop i s)"
    by (auto simp: occurs_def occurs_at_def)
  then have "occurs_at needle (u @ s) (length u + i)"
    by (simp add: occurs_at_def)
  then show ?thesis unfolding occurs_def by blast
qed

lemma occurs_here: "occurs needle (needle @ v)"
proof -
  have "occurs_at needle (needle @ v) 0" by (simp add: occurs_at_def)
  then show ?thesis unfolding occurs_def by blast
qed

lemma step_suffix:
  assumes "q \<le> 3" and "step q c \<le> 3"
  shows "\<exists>w. take q nextHeader @ [c] = w @ take (step q c) nextHeader"
proof -
  from assms(1) consider "q = 0" | "q = 1" | "q = 2" | "q = 3" by linarith
  then show ?thesis
  proof cases
    case 1
    then show ?thesis by (auto simp: nextHeader_chars step.simps)
  next
    case 2
    then show ?thesis by (auto simp: nextHeader_chars step.simps)
  next
    case 3
    then show ?thesis
      by (auto simp: nextHeader_chars step.simps
          intro: exI [of _ "[10, 35]"] exI [of _ "[10, 35, c]"])
  next
    case 4
    with assms(2) show ?thesis
      by (auto simp: nextHeader_chars step.simps split: if_splits
          intro: exI [of _ "[10, 35, 35]"] exI [of _ "[10, 35, 35, c]"])
  qed
qed

lemma scan_sound:
  "q \<le> 3 \<Longrightarrow> scan q s = 4 \<Longrightarrow> occurs nextHeader (take q nextHeader @ s)"
proof (induction s arbitrary: q)
  case Nil
  then show ?case by (simp add: scan_Nil)
next
  case (Cons c cs)
  show ?case
  proof (cases "step q c \<le> 3")
    case True
    from Cons.prems(2) have "scan (step q c) cs = 4" by (simp add: scan_Cons)
    from Cons.IH [OF True this]
    have o: "occurs nextHeader (take (step q c) nextHeader @ cs)" .
    from step_suffix [OF Cons.prems(1) True] obtain w where
      "take q nextHeader @ [c] = w @ take (step q c) nextHeader" by blast
    then have "take q nextHeader @ c # cs = w @ (take (step q c) nextHeader @ cs)"
      by (metis append.assoc append_Cons append_Nil)
    with occurs_append_left [OF o, of w] show ?thesis by (simp only:)
  next
    case False
    with Cons.prems(1) have "q = 3" and "c = 0x20"
      by (auto simp: step.simps split: if_splits)
    then have "take q nextHeader @ c # cs = nextHeader @ cs"
      by (simp add: nextHeader_chars)
    then show ?thesis by (simp only: occurs_here)
  qed
qed

lemma scan_0_iff: "scan 0 s = 4 \<longleftrightarrow> occurs nextHeader s"
  using scan_sound [of 0 s] scan_complete [of s 0] by auto

subsection \<open>The generated section holds no next header\<close>

lemma scan_no_newline: "0x0A \<notin> set s \<Longrightarrow> scan 0 s = 0"
  by (induction s) (simp_all add: scan_Nil scan_Cons step.simps)

lemma scan_newline: "q \<noteq> 4 \<Longrightarrow> scan q newline = 1"
  by (simp add: newline_def scan_Cons scan_Nil step.simps)

lemma line_ok_Nil: "line_ok []"
  by (simp add: line_ok_def scan_newline)

lemma line_ok_Cons:
  assumes "c \<noteq> 0x0A" and "c \<noteq> 0x23" and "scan 0 rest \<noteq> 4"
  shows "line_ok (c # rest)"
  unfolding line_ok_def
proof (intro allI impI)
  fix q :: nat assume "q \<noteq> 4"
  then have "scan q (newline @ c # rest) = scan (step 1 c) rest"
    by (simp add: scan_append scan_newline scan_Cons)
  also from assms(1,2) have "step 1 c = 0" by (simp add: step.simps)
  finally show "scan q (newline @ c # rest) \<noteq> 4" using assms(3) by simp
qed

lemma line_ok_literal:
  assumes "l \<noteq> []" and "hd l \<noteq> 0x0A" and "hd l \<noteq> 0x23" and "0x0A \<notin> set (tl l)"
  shows "line_ok l"
proof -
  from assms(1) obtain c rest where l: "l = c # rest" by (cases l) auto
  with assms show ?thesis by (intro line_ok_Cons [of c rest, folded l]) (simp_all add: scan_no_newline)
qed

lemma line_ok_spec:
  assumes "\<not> occurs nextHeader m"
  shows "line_ok (js ''          spec: hl-'' @ endpoint_str e @ js ''-'' @ m)"
proof -
  have eq: "js ''          spec: hl-'' @ endpoint_str e @ js ''-'' @ m
      = 0x20 # (js ''         spec: hl-'' @ endpoint_str e @ js ''-'') @ m"
    by (simp add: js_def)
  have "scan 0 ((js ''         spec: hl-'' @ endpoint_str e @ js ''-'') @ m) \<noteq> 4"
  proof -
    have "0x0A \<notin> set (js ''         spec: hl-'' @ endpoint_str e @ js ''-'')"
      by (cases e) (simp_all add: js_def)
    then have "scan 0 (js ''         spec: hl-'' @ endpoint_str e @ js ''-'') = 0"
      by (rule scan_no_newline)
    then have "scan 0 ((js ''         spec: hl-'' @ endpoint_str e @ js ''-'') @ m) = scan 0 m"
      by (simp only: scan_append [of 0 "js ''         spec: hl-'' @ endpoint_str e @ js ''-''" m])
    with assms show ?thesis by (simp add: scan_0_iff)
  qed
  then have "line_ok (0x20 # (js ''         spec: hl-'' @ endpoint_str e @ js ''-'') @ m)"
    by (intro line_ok_Cons) simp_all
  then show ?thesis by (simp only: eq)
qed

lemma line_ok_method_lines:
  assumes "\<not> occurs nextHeader m"
  shows "\<forall>l\<in>set (method_lines (endpoint_str e) m). line_ok l"
proof -
  have fixed: "line_ok (js ''  - ```yaml'')" "line_ok (js ''    type: builtin:openapi'')"
    "line_ok (js ''    props:'')" "line_ok (js ''      models: false'')"
    "line_ok (js ''      downloadLink: false'')" "line_ok (js ''    dependencies:'')"
    "line_ok (js ''      spec:'')" "line_ok (js ''        ref:'')"
    "line_ok (js ''          kind: openapi'')" "line_ok (js ''    ```'')"
    by (rule line_ok_literal; simp add: js_def)+
  with line_ok_spec [OF assms, of e] show ?thesis
    by (simp add: method_lines_def)
qed

lemma charAt0_endpoint:
  "charAt0 (endpoint_str Info) = js ''i''" "charAt0 (endpoint_str Exchange) = js ''e''"
  by (simp_all add: charAt0_def js_def)

lemma line_ok_heading:
  assumes "up (js ''i'') = js ''I''" and "up (js ''e'') = js ''E''"
  shows "line_ok (js ''- '' @ up (charAt0 (endpoint_str e)) @ drop 1 (endpoint_str e))"
proof (cases e)
  case Info
  show ?thesis unfolding Info charAt0_endpoint assms
    by (rule line_ok_literal; simp add: js_def)
next
  case Exchange
  show ?thesis unfolding Exchange charAt0_endpoint assms
    by (rule line_ok_literal; simp add: js_def)
qed

lemma line_ok_chunk:
  assumes "up (js ''i'') = js ''I''" and "up (js ''e'') = js ''E''"
    and "\<forall>m\<in>set (map fst (at specs e)). \<not> occurs nextHeader m"
  shows "\<forall>l\<in>set (section_chunk up specs e). line_ok l"
proof (cases "sort (map fst (at specs e)) = []")
  case True
  then show ?thesis by (simp add: section_chunk_def)
next
  case False
  have "\<forall>m\<in>set (sort (map fst (at specs e))). \<forall>l\<in>set (method_lines (endpoint_str e) m). line_ok l"
    using assms(3) line_ok_method_lines by fastforce
  with False line_ok_heading [OF assms(1,2), of e] line_ok_Nil show ?thesis
    by (auto simp: section_chunk_def Let_def)
qed

lemma scan_lines:
  "\<forall>l\<in>set ls. line_ok l \<Longrightarrow> q \<noteq> 4 \<Longrightarrow> scan q (concat (map ((@) newline) ls)) \<noteq> 4"
proof (induction ls arbitrary: q)
  case Nil
  then show ?case by (simp add: scan_Nil)
next
  case (Cons l ls)
  from Cons.prems have "scan q (newline @ l) \<noteq> 4" by (simp add: line_ok_def)
  with Cons.IH [of "scan q (newline @ l)"] Cons.prems(1)
  show ?case by (simp add: scan_append)
qed

lemma at_cases: "set (map fst (at specs e)) \<subseteq> set (map fst (info specs) @ map fst (exchange specs))"
  by (cases e) auto

lemma scan_section:
  assumes "up (js ''i'') = js ''I''" and "up (js ''e'') = js ''E''"
    and "\<forall>m\<in>set (map fst (info specs) @ map fst (exchange specs)). \<not> occurs nextHeader m"
  shows "scan 0 (newline @ section_text up specs @ newline) \<noteq> 4"
proof -
  have "\<forall>l\<in>set (concat (map (section_chunk up specs) (sort_key endpoint_str (object_keys specs)))).
          line_ok l"
  proof
    fix l assume "l \<in> set (concat (map (section_chunk up specs) (sort_key endpoint_str (object_keys specs))))"
    then obtain e where l: "l \<in> set (section_chunk up specs e)" by auto
    have "\<forall>m\<in>set (map fst (at specs e)). \<not> occurs nextHeader m"
      using assms(3) at_cases [of specs e] by blast
    from line_ok_chunk [OF assms(1,2) this] l show "line_ok l" by blast
  qed
  then have "scan 1 (section_text up specs) \<noteq> 4"
    unfolding section_text_def by (rule scan_lines) simp
  then show ?thesis by (simp add: scan_append scan_newline)
qed

subsection \<open>The end of the generated section\<close>

lemma method_lines_end: "\<exists>ls0. method_lines sec m = ls0 @ [fence]"
  unfolding method_lines_def fence_def
  by (rule exI [of _ "[_, _, _, _, _, _, _, _, _, _]"]) simp

lemma ends_ok_append: "ends_ok a \<Longrightarrow> ends_ok b \<Longrightarrow> ends_ok (a @ b)"
proof (cases "b = []")
  case True
  assume "ends_ok a" with True show ?thesis by simp
next
  case False
  assume "ends_ok b"
  with False obtain b0 where "b = b0 @ [fence, []]" by (auto simp: ends_ok_def)
  then have "a @ b = (a @ b0) @ [fence, []]" by simp
  then show ?thesis unfolding ends_ok_def by (intro disjI2 exI)
qed

lemma concat_method_lines_end:
  assumes "ms \<noteq> []"
  shows "\<exists>ls0. concat (map (method_lines sec) ms) = ls0 @ [fence]"
proof (cases ms rule: rev_cases)
  case Nil
  with assms show ?thesis by simp
next
  case (snoc ms0 m)
  from method_lines_end [of sec m] obtain ls0 where
    ls0: "method_lines sec m = ls0 @ [fence]" ..
  have "concat (map (method_lines sec) (ms0 @ [m]))
      = (concat (map (method_lines sec) ms0) @ ls0) @ [fence]"
    by (simp add: ls0)
  then show ?thesis unfolding snoc by (rule exI)
qed

lemma ends_ok_chunk: "ends_ok (section_chunk up specs e)"
proof (cases "sort (map fst (at specs e)) = []")
  case True
  then show ?thesis by (simp add: section_chunk_def ends_ok_def)
next
  case False
  let ?h = "js ''- '' @ up (charAt0 (endpoint_str e)) @ drop 1 (endpoint_str e)"
  from concat_method_lines_end [OF False, of "endpoint_str e"] obtain ls0 where
    ls0: "concat (map (method_lines (endpoint_str e)) (sort (map fst (at specs e))))
            = ls0 @ [fence]" ..
  have "section_chunk up specs e = ([?h] @ ls0) @ [fence, []]"
    using False by (simp add: section_chunk_def Let_def ls0)
  then show ?thesis unfolding ends_ok_def by (intro disjI2 exI)
qed

lemma ends_ok_chunks: "ends_ok (concat (map (section_chunk up specs) es))"
proof (induction es)
  case Nil
  show ?case by (simp add: ends_ok_def)
next
  case (Cons e es)
  from ends_ok_append [OF ends_ok_chunk Cons.IH] show ?case by simp
qed

lemma section_text_shape:
  "section_text up specs = [] \<or> (\<exists>t0. section_text up specs = t0 @ fence @ newline)"
proof -
  let ?ls = "concat (map (section_chunk up specs) (sort_key endpoint_str (object_keys specs)))"
  have "ends_ok ?ls" by (rule ends_ok_chunks)
  then show ?thesis
  proof (unfold ends_ok_def, elim disjE exE)
    assume "?ls = []"
    then show ?thesis by (simp add: section_text_def)
  next
    fix ls0 assume "?ls = ls0 @ [fence, []]"
    then have "section_text up specs
        = (concat (map ((@) newline) ls0) @ newline) @ fence @ newline"
      by (simp add: section_text_def)
    then show ?thesis by (intro disjI2 exI)
  qed
qed

lemma trimmable_newline: "\<forall>c\<in>set (newline @ newline). trimmable c"
  by (simp add: newline_def trimmable_def isLineTerminator_def)

lemma last_fence: "fence \<noteq> [] \<and> \<not> trimmable (last fence)"
  by (simp add: fence_def js_def trimmable_def isWhiteSpace_def isLineTerminator_def)

lemma last_apiHeader: "\<not> trimmable (last apiHeader)"
  by (simp add: apiHeader_def js_def trimmable_def isWhiteSpace_def isLineTerminator_def)

lemma block_shape:
  "\<exists>b0. join newline (api_section_lines up specs) = apiHeader @ b0 @ newline @ newline \<and>
        \<not> trimmable (last (apiHeader @ b0))"
proof -
  from section_text_shape [of up specs] show ?thesis
  proof (elim disjE exE)
    assume "section_text up specs = []"
    then have "join newline (api_section_lines up specs) = apiHeader @ [] @ newline @ newline"
      by (simp add: api_block)
    moreover have "\<not> trimmable (last (apiHeader @ []))"
      using last_apiHeader by simp
    ultimately show ?thesis by (intro exI conjI)
  next
    fix t0 assume "section_text up specs = t0 @ fence @ newline"
    then have "join newline (api_section_lines up specs)
        = apiHeader @ (newline @ t0 @ fence) @ newline @ newline"
      by (simp add: api_block)
    moreover have "\<not> trimmable (last (apiHeader @ (newline @ t0 @ fence)))"
      using last_fence by simp
    ultimately show ?thesis by (intro exI conjI)
  qed
qed

lemma occurs_at_take:
  assumes "occurs_at needle s j" and "j + length needle \<le> n"
  shows "occurs_at needle (take n s) j"
proof -
  from assms(1) obtain v where s: "s = take j s @ needle @ v" and j: "j \<le> length s"
    by (auto simp: occurs_at_split)
  have "length (take j s) = j" using j by simp
  then have "take n s = take j s @ needle @ take (n - j - length needle) v"
    using assms(2) by (subst s) (simp add: take_append)
  moreover have "j \<le> length (take n s)" using j assms(2) by simp
  ultimately show ?thesis
    unfolding occurs_at_def
    by (metis \<open>length (take j s) = j\<close> append_eq_conv_conj prefixI)
qed

lemma occurs_at_append:
  assumes "occurs_at needle a j"
  shows "occurs_at needle (a @ b) j"
  using assms by (auto simp: occurs_at_def intro: prefix_prefix)

lemma first_at_stable:
  assumes "first_at needle (p @ needle @ r1) (length p)"
  shows "first_at needle (p @ needle @ r2) (length p)"
  unfolding first_at_def
proof (intro conjI allI impI)
  show "occurs_at needle (p @ needle @ r2) (length p)"
    by (simp add: occurs_at_def)
next
  fix j assume j: "j < length p"
  show "\<not> occurs_at needle (p @ needle @ r2) j"
  proof
    assume "occurs_at needle (p @ needle @ r2) j"
    then have "occurs_at needle (take (length p + length needle) (p @ needle @ r2)) j"
      using j by (intro occurs_at_take) simp_all
    then have "occurs_at needle (p @ needle) j" by simp
    then have "occurs_at needle ((p @ needle) @ r1) j" by (rule occurs_at_append)
    with assms j show False by (simp add: first_at_def)
  qed
qed

lemma scan_three:
  assumes "scan 0 w \<noteq> 4"
  shows "scan 0 (w @ take 3 nextHeader) \<noteq> 4"
proof -
  have "scan 0 w \<le> 4" by (rule scan_le) simp
  with assms have "scan 0 w \<le> 3" by simp
  then consider "scan 0 w = 0" | "scan 0 w = 1" | "scan 0 w = 2" | "scan 0 w = 3" by linarith
  then show ?thesis
    by cases (simp_all add: scan_append nextHeader_chars scan_Cons scan_Nil step.simps)
qed

lemma no_early_header:
  assumes "scan 0 w \<noteq> 4" and "j < length w"
  shows "\<not> occurs_at nextHeader (w @ nextHeader @ rest) j"
proof
  assume "occurs_at nextHeader (w @ nextHeader @ rest) j"
  then have "occurs_at nextHeader (take (length w + 3) (w @ nextHeader @ rest)) j"
    using assms(2) by (intro occurs_at_take) (simp_all add: nextHeader_chars)
  then have "occurs_at nextHeader (w @ take 3 nextHeader) j"
    by (simp add: nextHeader_chars)
  then have "occurs nextHeader (w @ take 3 nextHeader)"
    unfolding occurs_def by blast
  then have "scan 0 (w @ take 3 nextHeader) = 4" by (rule scan_complete)
  with scan_three [OF assms(1)] show False by simp
qed

lemma trimEnd_nonempty:
  assumes "\<exists>c\<in>set xs. \<not> trimmable c"
  shows "trimEnd xs \<noteq> []"
proof -
  from assms obtain c where "c \<in> set (rev xs)" "\<not> trimmable c" by auto
  then have "dropWhile trimmable (rev xs) \<noteq> []"
    by (metis dropWhile_eq_Nil_conv)
  then show ?thesis by (simp add: trimEnd_def)
qed

subsection \<open>Running the Updater on a text with the header\<close>

lemma updateSummary_at:
  assumes "first_at apiHeader (p @ apiHeader @ v) (length p)"
  shows "updateSummary up specs (p @ apiHeader @ rest) =
     Inr (trimEnd (p @ join newline (api_section_lines up specs)
            @ (case indexOf (p @ apiHeader @ rest) nextHeader (length p + length apiHeader) of
                 None \<Rightarrow> [] | Some k \<Rightarrow> drop k (p @ apiHeader @ rest)))
          @ newline)"
proof -
  from first_at_stable [OF assms, of rest]
  have "indexOf (p @ apiHeader @ rest) apiHeader 0 = Some (length p)"
    by (simp add: indexOf_0_Some_iff)
  then show ?thesis by (simp add: updateSummary_def Let_def)
qed

lemma indexOf_rest_None:
  assumes "\<not> occurs nextHeader rest"
  shows "indexOf (p @ apiHeader @ rest) nextHeader (length p + length apiHeader) = None"
  using assms by (simp add: indexOf_None_iff)

lemma indexOf_rest_Some:
  assumes "first_at nextHeader rest i"
  shows "indexOf (p @ apiHeader @ rest) nextHeader (length p + length apiHeader)
           = Some (length p + length apiHeader + i)"
  using assms by (simp add: indexOf_Some_iff)

subsection \<open>Frame and idempotence\<close>



text \<open>
  C7, as stated: for every map and every text with the header, updating the output again
  gives the same text. With an empty map, the text \<open>## API\n## \<close> becomes
  \<open>## API\n\n\n##\n\<close>: the trim removes the blank that ends the next header, the
  second run finds no next header, and gives \<open>## API\n\<close>.
\<close>

theorem toc_not_idempotent:
  "updateSummary asciiUpper \<lparr>info = [], exchange = [] :: (jsstring \<times> json) list\<rparr>
     (js ''## API'' @ newline @ js ''## '')
   = Inr (js ''## API'' @ newline @ newline @ newline @ js ''##'' @ newline) \<and>
   updateSummary asciiUpper \<lparr>info = [], exchange = [] :: (jsstring \<times> json) list\<rparr>
     (js ''## API'' @ newline @ newline @ newline @ js ''##'' @ newline)
   = Inr (js ''## API'' @ newline)"
  by (simp add: updateSummary_def indexOf_def apiHeader_def nextHeader_def newline_def
      api_section_lines_def object_keys_def trimEnd_def trimmable_def isWhiteSpace_def
      isLineTerminator_def js_def)

text \<open>
  C7, amended. The update is idempotent for every text with the header in which the next
  top-level header after it, if there is one, is followed somewhere by a character that
  the trim does not remove, and for every map in which no method name contains
  \<open>\n## \<close> (given that the case mapping sends \<open>i\<close> to \<open>I\<close> and \<open>e\<close> to \<open>E\<close>): the
  Updater succeeds, and applied to its output with the same map it returns that output.
\<close>

theorem toc_idempotent_amended:
  assumes U1: "up (js ''i'') = js ''I''" and U2: "up (js ''e'') = js ''E''"
    and M: "\<forall>m\<in>set (map fst (info specs) @ map fst (exchange specs)). \<not> occurs nextHeader m"
    and H: "indexOf summary apiHeader 0 = Some start"
    and W: "\<forall>k. indexOf summary nextHeader (start + length apiHeader) = Some k \<longrightarrow>
              (\<exists>c\<in>set (drop (k + length nextHeader) summary). \<not> trimmable c)"
  shows "\<exists>out. updateSummary up specs summary = Inr out \<and> updateSummary up specs out = Inr out"
proof -
  let ?B = "join newline (api_section_lines up specs)"
  let ?P = "take start summary"
  from block_shape [of up specs] obtain b0 where
    B: "?B = apiHeader @ b0 @ newline @ newline"
    and lastB: "\<not> trimmable (last (apiHeader @ b0))" by blast
  have "apiHeader @ b0 @ newline @ newline = apiHeader @ newline @ section_text up specs @ newline"
    by (simp only: B [symmetric] api_block)
  then have eq: "b0 @ newline @ newline = newline @ section_text up specs @ newline"
    by (simp only: same_append_eq)
  have scanW: "scan 0 (b0 @ newline @ newline) \<noteq> 4"
    unfolding eq by (rule scan_section [OF U1 U2 M])
  from H have fa: "first_at apiHeader summary start" by (simp add: indexOf_0_Some_iff)
  then have len: "start + length apiHeader \<le> length summary" by (rule first_at_length)
  then have lenP: "length ?P = start" by simp
  from fa obtain v where sum: "summary = ?P @ apiHeader @ v"
    by (auto simp: first_at_def occurs_at_split)
  from fa have fa': "first_at apiHeader (?P @ apiHeader @ v) (length ?P)"
    using sum lenP by simp
  have apiB0: "apiHeader @ b0 \<noteq> []" by (simp add: apiHeader_def js_def)
  have keepB0: "trimEnd (?P @ apiHeader @ b0) = ?P @ apiHeader @ b0"
  proof (rule trimEnd_id, rule disjI2)
    have "last (?P @ apiHeader @ b0) = last (apiHeader @ b0)"
      using apiB0 by (rule last_appendR)
    with lastB show "\<not> trimmable (last (?P @ apiHeader @ b0))" by simp
  qed
  show ?thesis
  proof (cases "indexOf summary nextHeader (start + length apiHeader)")
    case None
    let ?out = "?P @ apiHeader @ (b0 @ newline)"
    have trim: "trimEnd (?P @ ?B) = ?P @ apiHeader @ b0"
    proof -
      have "trimEnd (?P @ ?B) = trimEnd ((?P @ apiHeader @ b0) @ (newline @ newline))"
        by (simp add: B)
      also have "\<dots> = trimEnd (?P @ apiHeader @ b0)"
        using trimmable_newline by (rule trimEnd_append_drop)
      finally show ?thesis by (simp only: keepB0)
    qed
    from H None have 1: "updateSummary up specs summary = Inr ?out"
      by (simp add: updateSummary_def Let_def trim)
    have "\<not> occurs nextHeader (b0 @ newline)"
    proof
      assume "occurs nextHeader (b0 @ newline)"
      then have "scan 0 (b0 @ newline) = 4" by (rule scan_complete)
      then have "scan 0 (b0 @ newline @ newline) = 4"
        using scan_append [of 0 "b0 @ newline" newline] by (simp add: scan_4)
      with scanW show False by simp
    qed
    then have "indexOf ?out nextHeader (length ?P + length apiHeader) = None"
      by (rule indexOf_rest_None)
    with updateSummary_at [OF fa', of up specs "b0 @ newline"]
    have "updateSummary up specs ?out = Inr (trimEnd (?P @ ?B @ []) @ newline)"
      by simp
    then have 2: "updateSummary up specs ?out = Inr ?out"
      by (simp add: trim)
    from 1 2 show ?thesis by blast
  next
    case (Some k)
    from suffix_keeps(1) [OF Some len] obtain s2 where S: "drop k summary = nextHeader @ s2"
      by (auto simp: prefix_def)
    have "drop (k + length nextHeader) summary = drop (length nextHeader) (drop k summary)"
      by (simp add: add.commute)
    also have "\<dots> = s2" by (simp add: S)
    finally have "\<exists>c\<in>set s2. \<not> trimmable c" using W Some by simp
    then have keep2: "trimEnd ((?P @ ?B @ nextHeader) @ s2) = (?P @ ?B @ nextHeader) @ trimEnd s2"
      and ne2: "trimEnd s2 \<noteq> []"
      by (simp_all only: trimEnd_append_keep trimEnd_nonempty not_False_eq_True)
    let ?s2 = "trimEnd s2"
    let ?rest = "(b0 @ newline @ newline) @ nextHeader @ (?s2 @ newline)"
    let ?out = "?P @ apiHeader @ ?rest"
    from H Some have 1: "updateSummary up specs summary = Inr ?out"
      using keep2 by (simp add: updateSummary_def Let_def S B)
    have "first_at nextHeader ?rest (length (b0 @ newline @ newline))"
      unfolding first_at_def
    proof (intro conjI allI impI)
      show "occurs_at nextHeader ?rest (length (b0 @ newline @ newline))"
        by (simp add: occurs_at_def)
    next
      fix j assume "j < length (b0 @ newline @ newline)"
      with scanW show "\<not> occurs_at nextHeader ?rest j"
        by (rule no_early_header)
    qed
    then have "indexOf ?out nextHeader (length ?P + length apiHeader)
        = Some (length ?P + length apiHeader + length (b0 @ newline @ newline))"
      by (rule indexOf_rest_Some)
    moreover have "drop (length ?P + length apiHeader + length (b0 @ newline @ newline)) ?out
        = nextHeader @ ?s2 @ newline"
      by simp
    ultimately have "updateSummary up specs ?out
        = Inr (trimEnd (?P @ ?B @ nextHeader @ ?s2 @ newline) @ newline)"
      using updateSummary_at [OF fa', of up specs ?rest] by simp
    moreover have "trimEnd (?P @ ?B @ nextHeader @ ?s2 @ newline) = ?P @ ?B @ nextHeader @ ?s2"
    proof -
      have "\<forall>c\<in>set newline. trimmable c" using trimmable_newline by simp
      then have "trimEnd ((?P @ ?B @ nextHeader @ ?s2) @ newline) = trimEnd (?P @ ?B @ nextHeader @ ?s2)"
        by (rule trimEnd_append_drop)
      also have "\<dots> = ?P @ ?B @ nextHeader @ ?s2"
      proof (rule trimEnd_id, rule disjI2)
        have "last (?P @ ?B @ nextHeader @ ?s2) = last ?s2"
          using ne2 by simp
        with trimEnd_last [of s2] ne2 show "\<not> trimmable (last (?P @ ?B @ nextHeader @ ?s2))"
          by simp
      qed
      finally show ?thesis by simp
    qed
    ultimately have 2: "updateSummary up specs ?out = Inr ?out"
      by (simp add: B)
    from 1 2 show ?thesis by blast
  qed
qed

theorem toc_idempotent_amended_witness:
  "asciiUpper (js ''i'') = js ''I'' \<and> asciiUpper (js ''e'') = js ''E'' \<and>
   \<not> occurs nextHeader (js ''meta'') \<and> \<not> occurs nextHeader (js ''order'') \<and>
   indexOf (js ''# T'' @ newline @ js ''## API'' @ newline @ js ''old'' @ newline
            @ js ''## Next'' @ newline) apiHeader 0 = Some 4 \<and>
   indexOf (js ''# T'' @ newline @ js ''## API'' @ newline @ js ''old'' @ newline
            @ js ''## Next'' @ newline) nextHeader (4 + length apiHeader) = Some 14 \<and>
   (\<exists>c\<in>set (drop (14 + length nextHeader)
              (js ''# T'' @ newline @ js ''## API'' @ newline @ js ''old'' @ newline
                 @ js ''## Next'' @ newline)). \<not> trimmable c) \<and>
   (\<exists>out.
      updateSummary asciiUpper
        \<lparr>info = [(js ''meta'', JNull)], exchange = [(js ''order'', JNull)]\<rparr>
        (js ''# T'' @ newline @ js ''## API'' @ newline @ js ''old'' @ newline
           @ js ''## Next'' @ newline) = Inr out \<and>
      updateSummary asciiUpper
        \<lparr>info = [(js ''meta'', JNull)], exchange = [(js ''order'', JNull)]\<rparr> out = Inr out)"
proof -
  let ?S = "js ''# T'' @ newline @ js ''## API'' @ newline @ js ''old'' @ newline
            @ js ''## Next'' @ newline"
  let ?specs = "\<lparr>info = [(js ''meta'', JNull)], exchange = [(js ''order'', JNull)]\<rparr>"
  have u: "asciiUpper (js ''i'') = js ''I''" "asciiUpper (js ''e'') = js ''E''"
    by (simp_all add: asciiUpper_def js_def)
  have "scan 0 (js ''meta'') \<noteq> 4" "scan 0 (js ''order'') \<noteq> 4"
    by (simp_all add: scan_def step.simps js_def)
  then have o: "\<not> occurs nextHeader (js ''meta'')" "\<not> occurs nextHeader (js ''order'')"
    by (simp_all add: scan_0_iff)
  then have m: "\<forall>m\<in>set (map fst (info ?specs) @ map fst (exchange ?specs)). \<not> occurs nextHeader m"
    by simp
  have h: "indexOf ?S apiHeader 0 = Some 4"
    by (simp add: indexOf_def apiHeader_def newline_def js_def)
  have n: "indexOf ?S nextHeader (4 + length apiHeader) = Some 14"
    by (simp add: indexOf_def apiHeader_def nextHeader_def newline_def js_def)
  have c: "\<exists>c\<in>set (drop (14 + length nextHeader) ?S). \<not> trimmable c"
    by (simp add: nextHeader_def newline_def js_def trimmable_def isWhiteSpace_def
        isLineTerminator_def)
  have w: "\<forall>k. indexOf ?S nextHeader (4 + length apiHeader) = Some k \<longrightarrow>
              (\<exists>c\<in>set (drop (k + length nextHeader) ?S). \<not> trimmable c)"
    unfolding n using c by simp
  from toc_idempotent_amended [OF u m h w] u o h n c show ?thesis by (intro conjI)
qed

section \<open>Properties of the Publisher\<close>

text \<open>
  C2. If the document map holds no (endpoint, method) entry, the Publisher returns
  successfully, whatever the remote service does and for every bound on the listing
  loop, and the run state is unchanged: no request was issued.
\<close>

theorem publisher_empty_no_calls:
  assumes "info openapiSpecs = []" and "exchange openapiSpecs = []"
  shows "updateGitBookOpenAPIs fetch stringify localeCompare fuel openapiSpecs gitbookToken orgId st
           = Some (Inr (), st)"
  using assms
  by (simp add: updateGitBookOpenAPIs_def collect_specs_def object_entries_def sort_by_def)

theorem publisher_empty_no_calls_witness:
  "updateGitBookOpenAPIs remote_fetch (\<lambda>doc. js ''{}'') (\<lambda>a b. 0) 0
     \<lparr>info = [], exchange = []\<rparr> (js ''token'') (js ''org'')
     \<lparr>world = \<lparr>entries = [(js ''hl-info-meta'', js ''{}'')], outages = []\<rparr>, calls = []\<rparr>
   = Some (Inr (),
       \<lparr>world = \<lparr>entries = [(js ''hl-info-meta'', js ''{}'')], outages = []\<rparr>, calls = []\<rparr>)"
  by (rule publisher_empty_no_calls) simp_all

subsection \<open>The requests of a run\<close>

lemma deleted_urls_append: "deleted_urls (a @ b) = deleted_urls a @ deleted_urls b"
  by (induction a rule: deleted_urls.induct) simp_all

lemma do_fetch_calls:
  "do_fetch fetch tok req st = (res, st1) \<Longrightarrow> calls st1 = calls st @ [req]"
  by (auto simp: do_fetch_def split: prod.splits)

lemma list_loop_calls:
  assumes "list_loop fetch tok org fuel page acc st = Some (r, st')"
  shows "deleted_urls (calls st') = deleted_urls (calls st) \<and>
         (\<forall>e. r = Inl e \<longrightarrow> \<not> reached_upload (Inl e))"
  using assms
proof (induction fuel arbitrary: page acc st)
  case 0
  then show ?case by simp
next
  case (Suc fuel)
  let ?req = "GET_url (collection_url org) 1000 (if truthy page then page else None)"
  obtain res st1 where f: "do_fetch fetch tok ?req st = (res, st1)"
    by (cases "do_fetch fetch tok ?req st")
  from do_fetch_calls [OF f]
  have d: "deleted_urls (calls st1) = deleted_urls (calls st)"
    by (simp add: deleted_urls_append)
  show ?case
  proof (cases "ok res")
    case False
    with Suc.prems f have "r = Inl (ListFailed (status res) (body res))" and "st' = st1"
      by simp_all
    with d show ?thesis by simp
  next
    case ok: True
    show ?thesis
    proof (cases "truthy (next_page (data res))")
      case True
      with Suc.prems f ok
      have "list_loop fetch tok org fuel (next_page (data res)) (acc @ items (data res)) st1
              = Some (r, st')"
        by (simp add: Let_def)
      from Suc.IH [OF this] d show ?thesis by simp
    next
      case False
      with Suc.prems f ok have "r = Inr (acc @ items (data res))" and "st' = st1"
        by (simp_all add: Let_def)
      with d show ?thesis by simp
    qed
  qed
qed

lemma delete_loop_calls:
  assumes "delete_loop fetch tok org localSlugs rs st = (r, st')"
  shows "\<exists>ys. prefix ys (filter (\<lambda>s. s \<notin> set localSlugs) rs) \<and>
           deleted_urls (calls st') = deleted_urls (calls st) @ map (spec_url org) ys \<and>
           (r = Inr () \<longrightarrow> ys = filter (\<lambda>s. s \<notin> set localSlugs) rs) \<and>
           (\<forall>e. r = Inl e \<longrightarrow> \<not> reached_upload (Inl e))"
  using assms
proof (induction rs arbitrary: st)
  case Nil
  then show ?case by auto
next
  case (Cons s rs)
  show ?case
  proof (cases "s \<in> set localSlugs")
    case True
    with Cons.prems have "delete_loop fetch tok org localSlugs rs st = (r, st')" by simp
    from Cons.IH [OF this] True show ?thesis by simp
  next
    case False
    obtain res st1 where f: "do_fetch fetch tok (DELETE_url (spec_url org s)) st = (res, st1)"
      by (cases "do_fetch fetch tok (DELETE_url (spec_url org s)) st")
    from do_fetch_calls [OF f]
    have d: "deleted_urls (calls st1) = deleted_urls (calls st) @ [spec_url org s]"
      by (simp add: deleted_urls_append)
    show ?thesis
    proof (cases "ok res")
      case bad: False
      with Cons.prems f False
      have "r = Inl (DeleteFailed s (status res) (body res))" and "st' = st1"
        by simp_all
      with d False show ?thesis
        by (intro exI [of _ "[s]"]) simp
    next
      case True
      with Cons.prems f False
      have "delete_loop fetch tok org localSlugs rs st1 = (r, st')" by simp
      from Cons.IH [OF this] obtain ys where
        ys: "prefix ys (filter (\<lambda>s. s \<notin> set localSlugs) rs)"
          "deleted_urls (calls st') = deleted_urls (calls st1) @ map (spec_url org) ys"
          "r = Inr () \<longrightarrow> ys = filter (\<lambda>s. s \<notin> set localSlugs) rs"
          "\<forall>e. r = Inl e \<longrightarrow> \<not> reached_upload (Inl e)"
        by blast
      with d False show ?thesis
        by (intro exI [of _ "s # ys"]) simp
    qed
  qed
qed

lemma put_loop_calls:
  assumes "put_loop fetch tok org remoteSlugs specs st = (r, st')"
  shows "deleted_urls (calls st') = deleted_urls (calls st) \<and> reached_upload r"
  using assms
proof (induction specs arbitrary: st)
  case Nil
  then show ?case by auto
next
  case (Cons s specs)
  let ?req = "PUT_url (spec_url org (slug s)) (spec_text s)"
  obtain res st1 where f: "do_fetch fetch tok ?req st = (res, st1)"
    by (cases "do_fetch fetch tok ?req st")
  from do_fetch_calls [OF f]
  have d: "deleted_urls (calls st1) = deleted_urls (calls st)"
    by (simp add: deleted_urls_append)
  show ?case
  proof (cases "ok res")
    case False
    with Cons.prems f
    have "r = Inl ((if slug s \<in> set remoteSlugs then UpdateFailed else UploadFailed)
                     (slug s) (status res) (body res))" and "st' = st1"
      by (simp_all add: Let_def)
    with d show ?thesis by simp
  next
    case True
    with Cons.prems f have "put_loop fetch tok org remoteSlugs specs st1 = (r, st')"
      by (simp add: Let_def)
    from Cons.IH [OF this] d show ?thesis by simp
  qed
qed

subsection \<open>The URLs that the host resolves\<close>

lemma unreserved_plain: "unreserved c \<Longrightarrow> c \<noteq> 0x2F \<and> c \<noteq> 0x3F \<and> c \<noteq> 0x23"
  by (auto simp: unreserved_def)

lemma url_segment_plain:
  assumes "url_segment s"
  shows "0x2F \<notin> set s" and "\<forall>c \<in> set s. c \<noteq> 0x3F \<and> c \<noteq> 0x23"
    and "s \<noteq> []" and "\<not> dot_segment s"
  using assms unreserved_plain by (auto simp: url_segment_def list_all_iff)

lemma split_slash_single: "0x2F \<notin> set a \<Longrightarrow> split_slash a = [a]"
  by (induction a) simp_all

lemma split_slash_app: "0x2F \<notin> set a \<Longrightarrow> split_slash (a @ 0x2F # b) = a # split_slash b"
  by (induction a) simp_all

lemma orgs_root_plain: "\<forall>c \<in> set orgs_root. c \<noteq> 0x3F \<and> c \<noteq> 0x23"
  by (simp add: orgs_root_def apiBase_def js_def)

lemma collection_name_plain:
  "\<forall>c \<in> set collection_name. c \<noteq> 0x3F \<and> c \<noteq> 0x23" "0x2F \<notin> set collection_name"
  by (simp_all add: collection_name_def js_def)

lemma collection_url_eq: "collection_url org = orgs_root @ org @ 0x2F # collection_name"
  by (simp add: collection_url_def orgs_root_def collection_name_def js_def)

lemma spec_url_eq: "spec_url org s = orgs_root @ org @ 0x2F # collection_name @ 0x2F # s"
  by (simp add: spec_url_def orgs_root_def collection_name_def js_def)

lemma url_path_plain: "\<forall>c \<in> set u. c \<noteq> 0x3F \<and> c \<noteq> 0x23 \<Longrightarrow> url_path u = u"
  by (simp add: url_path_def takeWhile_eq_all_conv)

lemma route_collection:
  assumes "url_segment org"
  shows "route (collection_url org) = Some Collection"
proof -
  note o = url_segment_plain [OF assms]
  have p: "url_path (collection_url org) = orgs_root @ org @ 0x2F # collection_name"
    unfolding collection_url_eq
    by (rule url_path_plain) (use o(2) orgs_root_plain collection_name_plain(1) in auto)
  have s: "split_slash (org @ 0x2F # collection_name) = [org, collection_name]"
    by (simp add: split_slash_app [OF o(1)] split_slash_single [OF collection_name_plain(2)])
  show ?thesis
    unfolding route_def p using o(3,4) by (simp add: s)
qed

lemma route_spec:
  assumes "url_segment org" and "url_segment s"
  shows "route (spec_url org s) = Some (Entry s)"
proof -
  note o = url_segment_plain [OF assms(1)]
  note t = url_segment_plain [OF assms(2)]
  have p: "url_path (spec_url org s) = orgs_root @ org @ 0x2F # collection_name @ 0x2F # s"
    unfolding spec_url_eq
    by (rule url_path_plain) (use o(2) t(2) orgs_root_plain collection_name_plain(1) in auto)
  have s: "split_slash (org @ 0x2F # collection_name @ 0x2F # s) = [org, collection_name, s]"
    by (simp add: split_slash_app [OF o(1)] split_slash_app [OF collection_name_plain(2)]
        split_slash_single [OF t(1)])
  show ?thesis
    unfolding route_def p using o(3,4) t(3,4) by (simp add: s)
qed


subsection \<open>The Publisher against the modelled host\<close>

lemma fetch_list_ok:
  assumes "do_fetch remote_fetch tok (GET_url u lim page) st = (res, st1)" and "ok res"
  shows "items (data res) = take lim (drop (page_of page * lim) (map fst (entries (world st))))"
    and "next_page (data res) =
           (if lim < length (drop (page_of page * lim) (map fst (entries (world st))))
            then cursor_of (Suc (page_of page)) else None)"
    and "entries (world st1) = entries (world st)"
  using assms
  by (auto simp: do_fetch_def remote_fetch_def success_def failure_def not_found_def Let_def
      split: list.splits bool.splits option.splits resource.splits)

lemma fetch_delete_ok:
  assumes "do_fetch remote_fetch tok (DELETE_url (spec_url org s)) st = (res, st1)" and "ok res"
    and "url_segment org" and "url_segment s"
  shows "entries (world st1) = AList.delete s (entries (world st))"
  using assms(1,2)
  by (auto simp: do_fetch_def remote_fetch_def success_def failure_def not_found_def Let_def
      route_spec [OF assms(3,4)] split: list.splits bool.splits if_splits)

lemma fetch_put_ok:
  assumes "do_fetch remote_fetch tok (PUT_url (spec_url org s) t) st = (res, st1)" and "ok res"
    and "url_segment org" and "url_segment s"
  shows "entries (world st1) = AList.update s t (entries (world st))"
  using assms(1,2)
  by (auto simp: do_fetch_def remote_fetch_def success_def failure_def not_found_def Let_def
      route_spec [OF assms(3,4)] split: list.splits bool.splits)

lemma cursor_roundtrip:
  "page_of (if truthy (cursor_of k) then cursor_of k else None) = k"
  by (simp add: cursor_of_def page_of_def truthy_def)

lemma truthy_cursor: "truthy (cursor_of (Suc k))"
  by (simp add: cursor_of_def truthy_def)

lemma truthy_None: "\<not> truthy None"
  by (simp add: truthy_def)

lemma list_loop_remote:
  assumes "list_loop remote_fetch tok org fuel (cursor_of k) acc st = Some (Inr all, st')"
  shows "all = acc @ drop (k * 1000) (map fst (entries (world st))) \<and>
         entries (world st') = entries (world st)"
  using assms
proof (induction fuel arbitrary: k acc st)
  case 0
  then show ?case by simp
next
  case (Suc fuel)
  let ?page = "if truthy (cursor_of k) then cursor_of k else None"
  let ?slugs = "map fst (entries (world st))"
  obtain res st1 where
    f: "do_fetch remote_fetch tok (GET_url (collection_url org) 1000 ?page) st = (res, st1)"
    by (cases "do_fetch remote_fetch tok (GET_url (collection_url org) 1000 ?page) st")
  with Suc.prems have ok: "ok res" by (auto split: if_splits)
  note r = fetch_list_ok [OF f ok, unfolded cursor_roundtrip]
  show ?case
  proof (cases "1000 < length (drop (k * 1000) ?slugs)")
    case True
    with r(2) have np: "next_page (data res) = cursor_of (Suc k)" by simp
    with Suc.prems f ok truthy_cursor [of k]
    have "list_loop remote_fetch tok org fuel (cursor_of (Suc k))
            (acc @ items (data res)) st1 = Some (Inr all, st')"
      by (simp add: Let_def)
    from Suc.IH [OF this] r(1,3)
    have "all = (acc @ take 1000 (drop (k * 1000) ?slugs)) @ drop (Suc k * 1000) ?slugs"
      and "entries (world st') = entries (world st)"
      by simp_all
    moreover have "take 1000 (drop (k * 1000) ?slugs) @ drop (Suc k * 1000) ?slugs
        = drop (k * 1000) ?slugs"
    proof -
      have "drop (Suc k * 1000) ?slugs = drop 1000 (drop (k * 1000) ?slugs)"
        by (simp add: add.commute)
      then show ?thesis by (simp only: append_take_drop_id)
    qed
    ultimately show ?thesis by simp
  next
    case False
    with r(2) have np: "next_page (data res) = None" by simp
    with Suc.prems f ok truthy_None
    have "all = acc @ items (data res)" and "st' = st1"
      by (simp_all add: Let_def)
    with r(1,3) False show ?thesis by simp
  qed
qed

lemma list_loop_returns:
  "length (entries (world st)) - k * 1000 < fuel \<Longrightarrow>
   \<exists>r. list_loop remote_fetch tok org fuel (cursor_of k) acc st = Some r"
proof (induction fuel arbitrary: k acc st)
  case 0
  then show ?case by simp
next
  case (Suc fuel)
  let ?page = "if truthy (cursor_of k) then cursor_of k else None"
  let ?slugs = "map fst (entries (world st))"
  obtain res st1 where
    f: "do_fetch remote_fetch tok (GET_url (collection_url org) 1000 ?page) st = (res, st1)"
    by (cases "do_fetch remote_fetch tok (GET_url (collection_url org) 1000 ?page) st")
  show ?case
  proof (cases "ok res")
    case False
    with f show ?thesis by simp
  next
    case True
    note r = fetch_list_ok [OF f True, unfolded cursor_roundtrip]
    show ?thesis
    proof (cases "1000 < length (drop (k * 1000) ?slugs)")
      case False
      with r(2) have "next_page (data res) = None" by simp
      with f True truthy_None show ?thesis by (simp add: Let_def)
    next
      case long: True
      with r(2) have np: "next_page (data res) = cursor_of (Suc k)" by simp
      from long Suc.prems r(3) have "length (entries (world st1)) - Suc k * 1000 < fuel"
        by simp
      from Suc.IH [OF this, of "acc @ items (data res)"] f True np truthy_cursor [of k]
      show ?thesis by (simp add: Let_def)
    qed
  qed
qed

lemma delete_loop_remote:
  assumes "delete_loop remote_fetch tok org localSlugs rs st = (Inr u, st')"
    and "url_segment org" and "\<forall>s \<in> set rs. url_segment s"
  shows "entries (world st') =
           filter (\<lambda>(s, t). \<not> (s \<in> set rs \<and> s \<notin> set localSlugs)) (entries (world st))"
  using assms(1,3)
proof (induction rs arbitrary: st)
  case Nil
  then show ?case by simp
next
  case (Cons s rs)
  from Cons.prems(2) have safe: "url_segment s" "\<forall>s \<in> set rs. url_segment s" by simp_all
  show ?case
  proof (cases "s \<in> set localSlugs")
    case True
    with Cons.prems have "delete_loop remote_fetch tok org localSlugs rs st = (Inr u, st')"
      by simp
    from Cons.IH [OF this safe(2)] True show ?thesis
      by (auto intro!: filter_cong)
  next
    case False
    obtain res st1 where
      f: "do_fetch remote_fetch tok (DELETE_url (spec_url org s)) st = (res, st1)"
      by (cases "do_fetch remote_fetch tok (DELETE_url (spec_url org s)) st")
    with Cons.prems False have ok: "ok res"
      and rec: "delete_loop remote_fetch tok org localSlugs rs st1 = (Inr u, st')"
      by (auto split: if_splits)
    note r = fetch_delete_ok [OF f ok assms(2) safe(1)]
    from Cons.IH [OF rec safe(2)]
    have e: "entries (world st') =
        filter (\<lambda>(s, t). \<not> (s \<in> set rs \<and> s \<notin> set localSlugs)) (AList.delete s (entries (world st)))"
      by (simp add: r)
    have "filter (\<lambda>(s, t). \<not> (s \<in> set rs \<and> s \<notin> set localSlugs)) (AList.delete s (entries (world st)))
        = filter (\<lambda>(s', t). \<not> (s' \<in> set (s # rs) \<and> s' \<notin> set localSlugs)) (entries (world st))"
      using False by (auto simp: AList.delete_eq intro!: filter_cong)
    with e show ?thesis by simp
  qed
qed

lemma put_loop_remote:
  assumes "put_loop remote_fetch tok org remoteSlugs specs st = (Inr u, st')"
    and "url_segment org" and "\<forall>s \<in> set specs. url_segment (slug s)"
  shows "set (map fst (entries (world st'))) =
           set (map fst (entries (world st))) \<union> set (map slug specs)"
  using assms(1,3)
proof (induction specs arbitrary: st)
  case Nil
  then show ?case by simp
next
  case (Cons s specs)
  from Cons.prems(2) have safe: "url_segment (slug s)" "\<forall>s \<in> set specs. url_segment (slug s)"
    by simp_all
  obtain res st1 where
    f: "do_fetch remote_fetch tok (PUT_url (spec_url org (slug s)) (spec_text s)) st = (res, st1)"
    by (cases "do_fetch remote_fetch tok (PUT_url (spec_url org (slug s)) (spec_text s)) st")
  with Cons.prems have ok: "ok res"
    and rec: "put_loop remote_fetch tok org remoteSlugs specs st1 = (Inr u, st')"
    by (auto simp: Let_def split: if_splits)
  note r = fetch_put_ok [OF f ok assms(2) safe(1)]
  have "set (map fst (entries (world st1))) = insert (slug s) (set (map fst (entries (world st))))"
    using dom_update [of "slug s" "spec_text s" "entries (world st)"] by (simp add: r)
  with Cons.IH [OF rec safe(2)] show ?case by simp
qed

lemma set_insert_by: "set (insert_by cmp x ys) = insert x (set ys)"
  by (induction ys) auto

lemma set_sort_by: "set (sort_by cmp xs) = set xs"
  by (induction xs) (simp_all add: sort_by_def set_insert_by)

lemma length_insert_by: "length (insert_by cmp x ys) = Suc (length ys)"
  by (induction ys) auto

lemma length_sort_by: "length (sort_by cmp xs) = length xs"
  by (induction xs) (simp_all add: sort_by_def length_insert_by)

lemma unsorted_slugs:
  "map slug (concat (map (\<lambda>(section, methods).
                  map (\<lambda>(method, spec).
                        \<lparr>slug = js ''hl-'' @ endpoint_str section @ js ''-'' @ method,
                         spec_text = stringify spec\<rparr>) methods)
          (object_entries specs))) = local_slugs specs"
  by (simp add: object_entries_def local_slugs_def case_prod_beta comp_def js_def)

lemma collect_specs_slugs:
  "set (map slug (collect_specs stringify cmp specs)) = set (local_slugs specs)"
proof -
  have "set (map slug (collect_specs stringify cmp specs))
      = slug ` set (concat (map (\<lambda>(section, methods).
                  map (\<lambda>(method, spec).
                        \<lparr>slug = js ''hl-'' @ endpoint_str section @ js ''-'' @ method,
                         spec_text = stringify spec\<rparr>) methods)
          (object_entries specs)))"
    by (simp add: collect_specs_def set_sort_by)
  also have "\<dots> = set (local_slugs specs)"
    unfolding unsorted_slugs [of stringify specs, symmetric] by (simp only: set_map)
  finally show ?thesis .
qed

lemma collect_specs_length:
  "length (collect_specs stringify cmp specs) = length (local_slugs specs)"
  by (simp add: collect_specs_def length_sort_by object_entries_def local_slugs_def)

lemma local_slugs_prefix: "s \<in> set (local_slugs specs) \<Longrightarrow> prefix (js ''hl-'') s"
  by (auto simp: local_slugs_def js_def)

lemma cursor_of_0: "cursor_of 0 = None"
  by (simp add: cursor_of_def)

lemma publisher_phases:
  assumes "updateGitBookOpenAPIs fetch stringify cmp fuel specs tok org st = Some (r, st')"
    and "local_slugs specs \<noteq> []"
  shows "(\<exists>e. list_loop fetch tok org fuel None [] st = Some (Inl e, st') \<and> r = Inl e) \<or>
     (\<exists>all st1. list_loop fetch tok org fuel None [] st = Some (Inr all, st1) \<and>
        ((\<exists>e. delete_loop fetch tok org (map slug (collect_specs stringify cmp specs))
                (filter (prefix (js ''hl-'')) all) st1 = (Inl e, st') \<and> r = Inl e) \<or>
         (\<exists>st2. delete_loop fetch tok org (map slug (collect_specs stringify cmp specs))
                  (filter (prefix (js ''hl-'')) all) st1 = (Inr (), st2) \<and>
                put_loop fetch tok org (filter (prefix (js ''hl-'')) all)
                  (collect_specs stringify cmp specs) st2 = (r, st'))))"
proof -
  from assms(2) have ne: "length (collect_specs stringify cmp specs) \<noteq> 0"
    by (simp add: collect_specs_length)
  with assms(1) show ?thesis
    by (auto simp: updateGitBookOpenAPIs_def Let_def
        split: option.splits sum.splits prod.splits)
qed

lemma publisher_returns:
  assumes "length (entries (world st)) < fuel"
  shows "\<exists>r. updateGitBookOpenAPIs remote_fetch stringify cmp fuel specs tok org st = Some r"
proof -
  from list_loop_returns [of st 0 fuel tok org "[]"] assms
  obtain r where "list_loop remote_fetch tok org fuel None [] st = Some r"
    by (auto simp: cursor_of_0)
  then show ?thesis
    by (auto simp: updateGitBookOpenAPIs_def Let_def
        split: option.splits sum.splits prod.splits)
qed

lemma publisher_deletes:
  assumes "updateGitBookOpenAPIs remote_fetch stringify cmp fuel specs tok org
             \<lparr>world = w, calls = []\<rparr> = Some (r, st')"
    and "local_slugs specs \<noteq> []"
  shows "\<exists>ys. prefix ys (filter (\<lambda>s. s \<notin> set (local_slugs specs)) (remote_slugs w)) \<and>
           deleted_urls (calls st') = map (spec_url org) ys \<and>
           (reached_upload r \<longrightarrow> ys = filter (\<lambda>s. s \<notin> set (local_slugs specs)) (remote_slugs w))"
proof -
  let ?st = "\<lparr>world = w, calls = []\<rparr>"
  let ?specs = "collect_specs stringify cmp specs"
  have L: "set (map slug ?specs) = set (local_slugs specs)" by (rule collect_specs_slugs)
  from publisher_phases [OF assms] consider
    (listing) e where "list_loop remote_fetch tok org fuel None [] ?st = Some (Inl e, st')" "r = Inl e"
  | (deleting) all st1 e where "list_loop remote_fetch tok org fuel None [] ?st = Some (Inr all, st1)"
      "delete_loop remote_fetch tok org (map slug ?specs) (filter (prefix (js ''hl-'')) all) st1
         = (Inl e, st')" "r = Inl e"
  | (uploading) all st1 st2 where "list_loop remote_fetch tok org fuel None [] ?st = Some (Inr all, st1)"
      "delete_loop remote_fetch tok org (map slug ?specs) (filter (prefix (js ''hl-'')) all) st1
         = (Inr (), st2)"
      "put_loop remote_fetch tok org (filter (prefix (js ''hl-'')) all) ?specs st2 = (r, st')"
    by blast
  then show ?thesis
  proof cases
    case listing
    from list_loop_calls [OF listing(1)] listing(2)
    have "deleted_urls (calls st') = []" and "\<not> reached_upload r" by simp_all
    then show ?thesis by (intro exI [of _ "[]"]) simp
  next
    case deleting
    from list_loop_remote [of tok org fuel 0 "[]" ?st all st1] deleting(1)
    have R: "filter (prefix (js ''hl-'')) all = remote_slugs w"
      by (simp add: cursor_of_0 remote_slugs_def)
    from list_loop_calls [OF deleting(1)] have k1: "deleted_urls (calls st1) = []" by simp
    from delete_loop_calls [OF deleting(2)] deleting(3) show ?thesis
      unfolding L R k1 by auto
  next
    case uploading
    from list_loop_remote [of tok org fuel 0 "[]" ?st all st1] uploading(1)
    have R: "filter (prefix (js ''hl-'')) all = remote_slugs w"
      by (simp add: cursor_of_0 remote_slugs_def)
    from list_loop_calls [OF uploading(1)] have k1: "deleted_urls (calls st1) = []" by simp
    from delete_loop_calls [OF uploading(2)]
    have "deleted_urls (calls st2)
        = map (spec_url org) (filter (\<lambda>s. s \<notin> set (local_slugs specs)) (remote_slugs w))"
      unfolding L R k1 by auto
    with put_loop_calls [OF uploading(3)] show ?thesis
      by (intro exI [of _ "filter (\<lambda>s. s \<notin> set (local_slugs specs)) (remote_slugs w)"]) simp
  qed
qed

lemma publisher_remote:
  assumes "updateGitBookOpenAPIs remote_fetch stringify cmp fuel specs tok org
             \<lparr>world = w, calls = []\<rparr> = Some (Inr (), st')"
    and "local_slugs specs \<noteq> []"
    and "url_segment org"
    and "list_all url_segment (local_slugs specs)"
    and "list_all url_segment (remote_slugs w)"
  shows "set (remote_slugs (world st')) = set (local_slugs specs)"
proof -
  let ?st = "\<lparr>world = w, calls = []\<rparr>"
  let ?specs = "collect_specs stringify cmp specs"
  let ?L = "set (local_slugs specs)"
  have L: "set (map slug ?specs) = ?L" by (rule collect_specs_slugs)
  from publisher_phases [OF assms(1,2)] obtain all st1 st2 where
    l: "list_loop remote_fetch tok org fuel None [] ?st = Some (Inr all, st1)"
    and d: "delete_loop remote_fetch tok org (map slug ?specs)
        (filter (prefix (js ''hl-'')) all) st1 = (Inr (), st2)"
    and p: "put_loop remote_fetch tok org (filter (prefix (js ''hl-'')) all)
        ?specs st2 = (Inr (), st')"
    by auto
  from list_loop_remote [of tok org fuel 0 "[]" ?st all st1] l
  have all: "all = map fst (entries w)" and e1: "entries (world st1) = entries w"
    by (simp_all add: cursor_of_0)
  then have R: "filter (prefix (js ''hl-'')) all = remote_slugs w"
    by (simp add: remote_slugs_def)
  from assms(5) have safeR: "\<forall>s \<in> set (remote_slugs w). url_segment s"
    by (simp add: list_all_iff)
  from assms(4) L have safeL: "\<forall>s \<in> set ?specs. url_segment (slug s)"
    by (auto simp: list_all_iff)
  from delete_loop_remote [OF d assms(3)] safeR
  have e2: "entries (world st2) =
      filter (\<lambda>(s, t). \<not> (s \<in> set (remote_slugs w) \<and> s \<notin> ?L)) (entries w)"
    unfolding L R e1 by simp
  from put_loop_remote [OF p assms(3) safeL]
  have e3: "set (map fst (entries (world st'))) = set (map fst (entries (world st2))) \<union> ?L"
    unfolding L by simp
  show ?thesis
  proof (intro set_eqI iffI)
    fix s assume "s \<in> set (remote_slugs (world st'))"
    then have pre: "prefix (js ''hl-'') s" and "s \<in> set (map fst (entries (world st')))"
      by (simp_all add: remote_slugs_def)
    with e3 have "s \<in> set (map fst (entries (world st2))) \<or> s \<in> ?L" by simp
    then show "s \<in> ?L"
    proof
      assume "s \<in> set (map fst (entries (world st2)))"
      then have "s \<in> set (map fst (entries w))" and "\<not> (s \<in> set (remote_slugs w) \<and> s \<notin> ?L)"
        unfolding e2 by auto
      with pre show ?thesis by (simp add: remote_slugs_def)
    qed
  next
    fix s assume s: "s \<in> ?L"
    with e3 have "s \<in> set (map fst (entries (world st')))" by simp
    with local_slugs_prefix [OF s] show "s \<in> set (remote_slugs (world st'))"
      by (simp add: remote_slugs_def)
  qed
qed

text \<open>
  C1, as stated, fails in three ways.
  \<^item> With an empty local set the Publisher returns before the listing: the run
    succeeds, no \<open>DELETE\<close> is issued for the remote slug \<open>hl-info-obsoleteOp\<close>, which
    is in \<open>R \ L\<close>, and the remote slug set is not \<open>L\<close> afterwards.
  \<^item> A run that is aborted while deleting has not issued every \<open>DELETE\<close>: with
    \<open>hl-info-oldA\<close> and \<open>hl-info-oldB\<close> in \<open>R \ L\<close> and a host that fails on the
    first \<open>DELETE\<close>, the only one issued is that of \<open>hl-info-oldA\<close>.
  \<^item> The slug is put into the URL as it is. For the method name \<open>a?b\<close> the \<open>PUT\<close>
    goes to \<open>.../openapi/hl-info-a?b\<close>, which is the entry \<open>hl-info-a\<close> with the
    query \<open>b\<close>: the run succeeds and the remote slug set is \<open>{hl-info-a}\<close>, not
    \<open>L = {hl-info-a?b}\<close>.
\<close>

theorem publisher_not_reconciled:
  "updateGitBookOpenAPIs remote_fetch (\<lambda>doc. js ''{}'') (\<lambda>a b. 0) 2
     \<lparr>info = [], exchange = []\<rparr> (js ''token'') (js ''org'')
     \<lparr>world = \<lparr>entries = [(js ''hl-info-obsoleteOp'', js ''{}'')], outages = []\<rparr>, calls = []\<rparr>
   = Some (Inr (),
       \<lparr>world = \<lparr>entries = [(js ''hl-info-obsoleteOp'', js ''{}'')], outages = []\<rparr>,
        calls = []\<rparr>) \<and>
   local_slugs \<lparr>info = [], exchange = []\<rparr> = [] \<and>
   remote_slugs \<lparr>entries = [(js ''hl-info-obsoleteOp'', js ''{}'')], outages = []\<rparr>
     = [js ''hl-info-obsoleteOp''] \<and>
   updateGitBookOpenAPIs remote_fetch (\<lambda>doc. js ''{}'') (\<lambda>a b. 0) (Suc (Suc 0))
     \<lparr>info = [(js ''meta'', JNull)], exchange = []\<rparr> (js ''token'') (js ''org'')
     \<lparr>world = \<lparr>entries = [(js ''hl-info-oldA'', js ''x''), (js ''hl-info-oldB'', js ''y'')],
                outages = [False, True]\<rparr>,
      calls = []\<rparr>
   = Some (Inl (DeleteFailed (js ''hl-info-oldA'') 500 (js ''Internal Server Error'')),
       \<lparr>world = \<lparr>entries = [(js ''hl-info-oldA'', js ''x''), (js ''hl-info-oldB'', js ''y'')],
                  outages = []\<rparr>,
        calls = [GET_url (js ''https://api.gitbook.com/v1/orgs/org/openapi'') 1000 None,
                 DELETE_url (js ''https://api.gitbook.com/v1/orgs/org/openapi/hl-info-oldA'')]\<rparr>) \<and>
   filter (\<lambda>s. s \<notin> set (local_slugs \<lparr>info = [(js ''meta'', JNull)], exchange = []\<rparr>))
     (remote_slugs \<lparr>entries = [(js ''hl-info-oldA'', js ''x''), (js ''hl-info-oldB'', js ''y'')],
                    outages = [False, True]\<rparr>)
     = [js ''hl-info-oldA'', js ''hl-info-oldB''] \<and>
   updateGitBookOpenAPIs remote_fetch (\<lambda>doc. js ''{}'') (\<lambda>a b. 0) (Suc (Suc 0))
     \<lparr>info = [(js ''a?b'', JNull)], exchange = []\<rparr> (js ''token'') (js ''org'')
     \<lparr>world = \<lparr>entries = [], outages = []\<rparr>, calls = []\<rparr>
   = Some (Inr (),
       \<lparr>world = \<lparr>entries = [(js ''hl-info-a'', js ''{}'')], outages = []\<rparr>,
        calls = [GET_url (js ''https://api.gitbook.com/v1/orgs/org/openapi'') 1000 None,
                 PUT_url (js ''https://api.gitbook.com/v1/orgs/org/openapi/hl-info-a?b'')
                   (js ''{}'')]\<rparr>) \<and>
   local_slugs \<lparr>info = [(js ''a?b'', JNull)], exchange = []\<rparr> = [js ''hl-info-a?b''] \<and>
   remote_slugs \<lparr>entries = [(js ''hl-info-a'', js ''{}'')], outages = []\<rparr> = [js ''hl-info-a'']"
proof -
  note defs = updateGitBookOpenAPIs_def collect_specs_def object_entries_def sort_by_def
      do_fetch_def remote_fetch_def success_def failure_def not_found_def truthy_def
      page_of_def cursor_of_def route_def url_path_def orgs_root_def collection_name_def
      dot_segment_def collection_url_def spec_url_def apiBase_def AList.delete_eq
      local_slugs_def remote_slugs_def js_def
  have 1: "updateGitBookOpenAPIs remote_fetch (\<lambda>doc. js ''{}'') (\<lambda>a b. 0) 2
     \<lparr>info = [], exchange = []\<rparr> (js ''token'') (js ''org'')
     \<lparr>world = \<lparr>entries = [(js ''hl-info-obsoleteOp'', js ''{}'')], outages = []\<rparr>, calls = []\<rparr>
   = Some (Inr (),
       \<lparr>world = \<lparr>entries = [(js ''hl-info-obsoleteOp'', js ''{}'')], outages = []\<rparr>,
        calls = []\<rparr>) \<and>
   local_slugs \<lparr>info = [], exchange = []\<rparr> = [] \<and>
   remote_slugs \<lparr>entries = [(js ''hl-info-obsoleteOp'', js ''{}'')], outages = []\<rparr>
     = [js ''hl-info-obsoleteOp'']"
    by (simp add: updateGitBookOpenAPIs_def collect_specs_def object_entries_def sort_by_def
      local_slugs_def remote_slugs_def js_def)
  have 2: "updateGitBookOpenAPIs remote_fetch (\<lambda>doc. js ''{}'') (\<lambda>a b. 0) (Suc (Suc 0))
     \<lparr>info = [(js ''meta'', JNull)], exchange = []\<rparr> (js ''token'') (js ''org'')
     \<lparr>world = \<lparr>entries = [(js ''hl-info-oldA'', js ''x''), (js ''hl-info-oldB'', js ''y'')],
                outages = [False, True]\<rparr>,
      calls = []\<rparr>
   = Some (Inl (DeleteFailed (js ''hl-info-oldA'') 500 (js ''Internal Server Error'')),
       \<lparr>world = \<lparr>entries = [(js ''hl-info-oldA'', js ''x''), (js ''hl-info-oldB'', js ''y'')],
                  outages = []\<rparr>,
        calls = [GET_url (js ''https://api.gitbook.com/v1/orgs/org/openapi'') 1000 None,
                 DELETE_url (js ''https://api.gitbook.com/v1/orgs/org/openapi/hl-info-oldA'')]\<rparr>)"
    by (simp add: defs)
  have 3: "filter (\<lambda>s. s \<notin> set (local_slugs \<lparr>info = [(js ''meta'', JNull)], exchange = []\<rparr>))
     (remote_slugs \<lparr>entries = [(js ''hl-info-oldA'', js ''x''), (js ''hl-info-oldB'', js ''y'')],
                    outages = [False, True]\<rparr>)
     = [js ''hl-info-oldA'', js ''hl-info-oldB'']"
    by (simp add: local_slugs_def remote_slugs_def js_def)
  have 4: "updateGitBookOpenAPIs remote_fetch (\<lambda>doc. js ''{}'') (\<lambda>a b. 0) (Suc (Suc 0))
     \<lparr>info = [(js ''a?b'', JNull)], exchange = []\<rparr> (js ''token'') (js ''org'')
     \<lparr>world = \<lparr>entries = [], outages = []\<rparr>, calls = []\<rparr>
   = Some (Inr (),
       \<lparr>world = \<lparr>entries = [(js ''hl-info-a'', js ''{}'')], outages = []\<rparr>,
        calls = [GET_url (js ''https://api.gitbook.com/v1/orgs/org/openapi'') 1000 None,
                 PUT_url (js ''https://api.gitbook.com/v1/orgs/org/openapi/hl-info-a?b'')
                   (js ''{}'')]\<rparr>)"
    by (simp add: defs)
  have 5: "local_slugs \<lparr>info = [(js ''a?b'', JNull)], exchange = []\<rparr> = [js ''hl-info-a?b'']"
    "remote_slugs \<lparr>entries = [(js ''hl-info-a'', js ''{}'')], outages = []\<rparr> = [js ''hl-info-a'']"
    by (simp_all add: local_slugs_def remote_slugs_def js_def)
  from 1 2 3 4 5 show ?thesis by (intro conjI) simp_all
qed

text \<open>
  C1, amended: for every non-empty local slug set \<open>L\<close> and every remote slug set \<open>R\<close>
  (the remote slugs with the reserved prefix), against the modelled host.
  \<^item> With the listing loop bounded by more iterations than the host has entries, the
    run ends.
  \<^item> In every run that ends, the \<open>DELETE\<close> requests issued go to the URLs
    \<open>{apiBase}/orgs/{orgId}/openapi/{slug}\<close> of slugs of \<open>R \ L\<close>, in the order of
    the listing: they are a leading part of the list of those URLs.
  \<^item> In every run that is not aborted while listing or deleting, that is, a run that
    completes or that fails in the upload phase, they are the URLs of exactly the
    slugs of \<open>R \ L\<close>.
  \<^item> After a run that completes without error, if \<open>orgId\<close> and the slugs of \<open>L\<close> and
    \<open>R\<close> are path segments of a URL as they stand (\<open>url_segment\<close>: not empty, not
    \<open>.\<close> or \<open>..\<close>, made of unreserved characters), the remote slugs with the
    reserved prefix are exactly the local slugs. Of other names nothing is said.
\<close>

theorem publisher_reconciles_amended:
  assumes "local_slugs openapiSpecs \<noteq> []"
  shows "(length (entries w) < fuel \<longrightarrow>
            (\<exists>r. updateGitBookOpenAPIs remote_fetch stringify localeCompare fuel openapiSpecs
                    gitbookToken orgId \<lparr>world = w, calls = []\<rparr> = Some r)) \<and>
         (updateGitBookOpenAPIs remote_fetch stringify localeCompare fuel openapiSpecs
            gitbookToken orgId \<lparr>world = w, calls = []\<rparr> = Some (r, st') \<longrightarrow>
            prefix (deleted_urls (calls st'))
              (map (spec_url orgId)
                 (filter (\<lambda>s. s \<notin> set (local_slugs openapiSpecs)) (remote_slugs w))) \<and>
            (reached_upload r \<longrightarrow>
               deleted_urls (calls st')
                 = map (spec_url orgId)
                     (filter (\<lambda>s. s \<notin> set (local_slugs openapiSpecs)) (remote_slugs w)) \<and>
               set (deleted_urls (calls st'))
                 = spec_url orgId ` (set (remote_slugs w) - set (local_slugs openapiSpecs))) \<and>
            (r = Inr () \<and> url_segment orgId \<and> list_all url_segment (local_slugs openapiSpecs)
               \<and> list_all url_segment (remote_slugs w) \<longrightarrow>
               set (remote_slugs (world st')) = set (local_slugs openapiSpecs)))"
proof (intro conjI impI)
  assume "length (entries w) < fuel"
  then show "\<exists>r. updateGitBookOpenAPIs remote_fetch stringify localeCompare fuel openapiSpecs
                    gitbookToken orgId \<lparr>world = w, calls = []\<rparr> = Some r"
    using publisher_returns [of "\<lparr>world = w, calls = []\<rparr>" fuel] by simp
next
  assume run: "updateGitBookOpenAPIs remote_fetch stringify localeCompare fuel openapiSpecs
            gitbookToken orgId \<lparr>world = w, calls = []\<rparr> = Some (r, st')"
  from publisher_deletes [OF run assms] obtain ys where
    ys: "prefix ys (filter (\<lambda>s. s \<notin> set (local_slugs openapiSpecs)) (remote_slugs w))"
      "deleted_urls (calls st') = map (spec_url orgId) ys"
    by blast
  show "prefix (deleted_urls (calls st'))
              (map (spec_url orgId)
                 (filter (\<lambda>s. s \<notin> set (local_slugs openapiSpecs)) (remote_slugs w)))"
    unfolding ys(2) using ys(1) by (rule map_mono_prefix)
next
  assume run: "updateGitBookOpenAPIs remote_fetch stringify localeCompare fuel openapiSpecs
            gitbookToken orgId \<lparr>world = w, calls = []\<rparr> = Some (r, st')"
    and up: "reached_upload r"
  from publisher_deletes [OF run assms] up
  show del: "deleted_urls (calls st')
                 = map (spec_url orgId)
                     (filter (\<lambda>s. s \<notin> set (local_slugs openapiSpecs)) (remote_slugs w))"
    by auto
  show "set (deleted_urls (calls st'))
                 = spec_url orgId ` (set (remote_slugs w) - set (local_slugs openapiSpecs))"
    unfolding del by auto
next
  assume run: "updateGitBookOpenAPIs remote_fetch stringify localeCompare fuel openapiSpecs
            gitbookToken orgId \<lparr>world = w, calls = []\<rparr> = Some (r, st')"
    and h: "r = Inr () \<and> url_segment orgId \<and> list_all url_segment (local_slugs openapiSpecs)
               \<and> list_all url_segment (remote_slugs w)"
  from run h have "updateGitBookOpenAPIs remote_fetch stringify localeCompare fuel openapiSpecs
            gitbookToken orgId \<lparr>world = w, calls = []\<rparr> = Some (Inr (), st')"
    by simp
  from publisher_remote [OF this assms] h
  show "set (remote_slugs (world st')) = set (local_slugs openapiSpecs)"
    by blast
qed

theorem publisher_reconciles_amended_witness:
  "local_slugs \<lparr>info = [(js ''meta'', JNull), (js ''allMids'', JNull)], exchange = []\<rparr> \<noteq> [] \<and>
   (\<exists>st'.
      updateGitBookOpenAPIs remote_fetch (\<lambda>doc. js ''{}'')
        (\<lambda>a b. if a < b then - 1 else if a = b then 0 else 1) (Suc (Suc (Suc (Suc 0))))
        \<lparr>info = [(js ''meta'', JNull), (js ''allMids'', JNull)], exchange = []\<rparr>
        (js ''token'') (js ''org'')
        \<lparr>world = \<lparr>entries = [(js ''hl-info-allMids'', js ''old''), (js ''other'', js ''x''),
                              (js ''hl-info-obsoleteOp'', js ''y'')],
                   outages = []\<rparr>,
         calls = []\<rparr>
      = Some (Inr (), st') \<and>
      calls st' =
        [GET_url (js ''https://api.gitbook.com/v1/orgs/org/openapi'') 1000 None,
         DELETE_url (js ''https://api.gitbook.com/v1/orgs/org/openapi/hl-info-obsoleteOp''),
         PUT_url (js ''https://api.gitbook.com/v1/orgs/org/openapi/hl-info-allMids'') (js ''{}''),
         PUT_url (js ''https://api.gitbook.com/v1/orgs/org/openapi/hl-info-meta'') (js ''{}'')] \<and>
      deleted_urls (calls st') =
        [js ''https://api.gitbook.com/v1/orgs/org/openapi/hl-info-obsoleteOp''] \<and>
      set (remote_slugs (world st')) = {js ''hl-info-allMids'', js ''hl-info-meta''}) \<and>
   (\<exists>st'.
      updateGitBookOpenAPIs remote_fetch (\<lambda>doc. js ''{}'')
        (\<lambda>a b. if a < b then - 1 else if a = b then 0 else 1) (Suc (Suc (Suc (Suc 0))))
        \<lparr>info = [(js ''meta'', JNull), (js ''allMids'', JNull)], exchange = []\<rparr>
        (js ''token'') (js ''org'')
        \<lparr>world = \<lparr>entries = [(js ''hl-info-allMids'', js ''old''), (js ''other'', js ''x''),
                              (js ''hl-info-obsoleteOp'', js ''y'')],
                   outages = [False, False, True]\<rparr>,
         calls = []\<rparr>
      = Some (Inl (UpdateFailed (js ''hl-info-allMids'') 500 (js ''Internal Server Error'')), st') \<and>
      deleted_urls (calls st') =
        [js ''https://api.gitbook.com/v1/orgs/org/openapi/hl-info-obsoleteOp''])"
proof -
  let ?specs = "\<lparr>info = [(js ''meta'', JNull), (js ''allMids'', JNull)], exchange = []\<rparr>"
  let ?es = "[(js ''hl-info-allMids'', js ''old''), (js ''other'', js ''x''),
                              (js ''hl-info-obsoleteOp'', js ''y'')]"
  let ?w = "\<lparr>entries = ?es, outages = []\<rparr>"
  let ?w2 = "\<lparr>entries = ?es, outages = [False, False, True]\<rparr>"
  let ?cmp = "\<lambda>a b :: jsstring. if a < b then - 1 else if a = b then 0 else (1 :: int)"
  let ?fuel = "Suc (Suc (Suc (Suc 0)))"
  let ?st' = "\<lparr>world = \<lparr>entries = [(js ''hl-info-allMids'', js ''{}''), (js ''other'', js ''x''),
                              (js ''hl-info-meta'', js ''{}'')],
                   outages = []\<rparr>,
         calls = [GET_url (js ''https://api.gitbook.com/v1/orgs/org/openapi'') 1000 None,
         DELETE_url (js ''https://api.gitbook.com/v1/orgs/org/openapi/hl-info-obsoleteOp''),
         PUT_url (js ''https://api.gitbook.com/v1/orgs/org/openapi/hl-info-allMids'') (js ''{}''),
         PUT_url (js ''https://api.gitbook.com/v1/orgs/org/openapi/hl-info-meta'') (js ''{}'')]\<rparr>"
  let ?st2 = "\<lparr>world = \<lparr>entries = [(js ''hl-info-allMids'', js ''old''), (js ''other'', js ''x'')],
                   outages = []\<rparr>,
         calls = [GET_url (js ''https://api.gitbook.com/v1/orgs/org/openapi'') 1000 None,
         DELETE_url (js ''https://api.gitbook.com/v1/orgs/org/openapi/hl-info-obsoleteOp''),
         PUT_url (js ''https://api.gitbook.com/v1/orgs/org/openapi/hl-info-allMids'') (js ''{}'')]\<rparr>"
  let ?err = "Inl (UpdateFailed (js ''hl-info-allMids'') 500 (js ''Internal Server Error''))"
  note defs = updateGitBookOpenAPIs_def collect_specs_def object_entries_def sort_by_def
      do_fetch_def remote_fetch_def success_def failure_def not_found_def truthy_def
      page_of_def cursor_of_def route_def url_path_def orgs_root_def collection_name_def
      dot_segment_def collection_url_def spec_url_def apiBase_def AList.delete_eq js_def
  have ne: "local_slugs ?specs \<noteq> []" by (simp add: local_slugs_def)
  have run: "updateGitBookOpenAPIs remote_fetch (\<lambda>doc. js ''{}'') ?cmp ?fuel ?specs
        (js ''token'') (js ''org'') \<lparr>world = ?w, calls = []\<rparr> = Some (Inr (), ?st')"
    by (simp add: defs)
  have run2: "updateGitBookOpenAPIs remote_fetch (\<lambda>doc. js ''{}'') ?cmp ?fuel ?specs
        (js ''token'') (js ''org'') \<lparr>world = ?w2, calls = []\<rparr> = Some (?err, ?st2)"
    by (simp add: defs)
  have safe: "url_segment (js ''org'')" "list_all url_segment (local_slugs ?specs)"
    "list_all url_segment (remote_slugs ?w)"
    by (simp_all add: url_segment_def dot_segment_def unreserved_def local_slugs_def
        remote_slugs_def js_def)
  have up: "reached_upload (Inr ())" "reached_upload ?err" by simp_all
  have L: "set (local_slugs ?specs) = {js ''hl-info-allMids'', js ''hl-info-meta''}"
    by (auto simp: local_slugs_def js_def)
  have R: "map (spec_url (js ''org''))
      (filter (\<lambda>s. s \<notin> set (local_slugs ?specs)) (remote_slugs ?w))
      = [js ''https://api.gitbook.com/v1/orgs/org/openapi/hl-info-obsoleteOp'']"
    "remote_slugs ?w2 = remote_slugs ?w"
    by (simp_all add: local_slugs_def remote_slugs_def spec_url_def apiBase_def js_def)
  from publisher_reconciles_amended [OF ne, of ?w ?fuel "\<lambda>doc. js ''{}''" ?cmp
      "js ''token''" "js ''org''" "Inr ()" ?st'] run up(1) safe
  have a: "deleted_urls (calls ?st') = [js ''https://api.gitbook.com/v1/orgs/org/openapi/hl-info-obsoleteOp'']"
    and b: "set (remote_slugs (world ?st')) = {js ''hl-info-allMids'', js ''hl-info-meta''}"
    unfolding L R by simp_all
  from publisher_reconciles_amended [OF ne, of ?w2 ?fuel "\<lambda>doc. js ''{}''" ?cmp
      "js ''token''" "js ''org''" ?err ?st2] run2 up(2)
  have c: "deleted_urls (calls ?st2) = [js ''https://api.gitbook.com/v1/orgs/org/openapi/hl-info-obsoleteOp'']"
    unfolding R by simp
  have first: "\<exists>st'. updateGitBookOpenAPIs remote_fetch (\<lambda>doc. js ''{}'') ?cmp ?fuel ?specs
        (js ''token'') (js ''org'') \<lparr>world = ?w, calls = []\<rparr> = Some (Inr (), st') \<and>
      calls st' =
        [GET_url (js ''https://api.gitbook.com/v1/orgs/org/openapi'') 1000 None,
         DELETE_url (js ''https://api.gitbook.com/v1/orgs/org/openapi/hl-info-obsoleteOp''),
         PUT_url (js ''https://api.gitbook.com/v1/orgs/org/openapi/hl-info-allMids'') (js ''{}''),
         PUT_url (js ''https://api.gitbook.com/v1/orgs/org/openapi/hl-info-meta'') (js ''{}'')] \<and>
      deleted_urls (calls st') =
        [js ''https://api.gitbook.com/v1/orgs/org/openapi/hl-info-obsoleteOp''] \<and>
      set (remote_slugs (world st')) = {js ''hl-info-allMids'', js ''hl-info-meta''}"
    using run a b by (intro exI [of _ ?st'] conjI) simp_all
  have second: "\<exists>st'. updateGitBookOpenAPIs remote_fetch (\<lambda>doc. js ''{}'') ?cmp ?fuel ?specs
        (js ''token'') (js ''org'') \<lparr>world = ?w2, calls = []\<rparr> = Some (?err, st') \<and>
      deleted_urls (calls st') =
        [js ''https://api.gitbook.com/v1/orgs/org/openapi/hl-info-obsoleteOp'']"
    using run2 c by (intro exI [of _ ?st2] conjI) simp_all
  from ne first second show ?thesis by (intro conjI)
qed

end
